theory Spec2Isabelle
  imports Complex_Main "HOL-Library.Multiset" "HOL-Library.Sublist"
begin

section \<open>Strings\<close>

text \<open>
  A JavaScript string is a sequence of UTF-16 code units; it is modelled as a
  \<^typ>\<open>string\<close>, one \<^typ>\<open>char\<close> per code unit, so \<open>length\<close> is the
  \<^verbatim>\<open>.length\<close> of the source.  \<^verbatim>\<open>s.startsWith(p)\<close> compares the first
  \<open>length p\<close> code units of \<open>s\<close> with \<open>p\<close>.
\<close>

definition startsWith :: "string \<Rightarrow> string \<Rightarrow> bool" where
  "startsWith s p = (take (length p) s = p)"

section \<open>Folder tree selection (FolderTreeSelector.tsx)\<close>

text \<open>
  \<^verbatim>\<open>isChildOfAny(path, paths)\<close>: some other member of \<open>paths\<close>, extended with a
  slash, is a prefix of \<open>path\<close>.
\<close>

definition isChildOfAny :: "string \<Rightarrow> string set \<Rightarrow> bool" where
  "isChildOfAny path paths = (\<exists>p \<in> paths. p \<noteq> path \<and> startsWith path (p @ ''/''))"

text \<open>
  \<^verbatim>\<open>onToggleSelect\<close> is the updater handed to \<^verbatim>\<open>setSelected\<close>: it copies the
  previous set, and either deletes the path or deletes, in two passes over the copy, the
  selected descendants and then the selected ancestors of the path before adding it.
  Deleting the element under the cursor of a \<^verbatim>\<open>for ... of\<close> over a \<^verbatim>\<open>Set\<close> is
  well defined in JavaScript, so each pass is a filter.
\<close>

definition onToggleSelect :: "string \<Rightarrow> string set \<Rightarrow> string set" where
  "onToggleSelect path prev =
     (let next = prev in
      if path \<in> next then next - {path}
      else
        let next1 = Set.filter (\<lambda>p. \<not> startsWith p (path @ ''/'')) next;
            next2 = Set.filter (\<lambda>p. \<not> startsWith path (p @ ''/'')) next1
        in insert path next2)"

text \<open>The selection after a sequence of clicks, starting from the initial empty set.\<close>

definition selectedAfter :: "string list \<Rightarrow> string set" where
  "selectedAfter clicks = foldl (\<lambda>sel path. onToggleSelect path sel) {} clicks"

text \<open>No selected path is a strict descendant of another selected path.\<close>

definition noNested :: "string set \<Rightarrow> bool" where
  "noNested sel = (\<forall>p \<in> sel. \<forall>q \<in> sel. \<not> startsWith q (p @ ''/''))"

section \<open>Tag include / exclude cycle (SampleBrowser.tsx)\<close>

text \<open>
  \<^verbatim>\<open>cycleTag\<close> and \<^verbatim>\<open>removeTag\<close> copy the two sets, update the copies and
  hand them to \<^verbatim>\<open>onFiltersChange\<close> as arrays; the next render rebuilds the sets from
  those arrays.  The model returns the pair (include, exclude) of the updated sets.
\<close>

definition cycleTag :: "string \<Rightarrow> string set \<times> string set \<Rightarrow> string set \<times> string set" where
  "cycleTag tag st =
     (let newInclude = fst st; newExclude = snd st in
      if tag \<in> newInclude then (newInclude - {tag}, insert tag newExclude)
      else if tag \<in> newExclude then (newInclude, newExclude - {tag})
      else (insert tag newInclude, newExclude))"

definition removeTag :: "string \<Rightarrow> string set \<times> string set \<Rightarrow> string set \<times> string set" where
  "removeTag tag st =
     (let newInclude = fst st; newExclude = snd st in
      (newInclude - {tag}, newExclude - {tag}))"

datatype tagOp = CycleTag string | RemoveTag string

fun applyTagOp :: "string set \<times> string set \<Rightarrow> tagOp \<Rightarrow> string set \<times> string set" where
  "applyTagOp st (CycleTag t) = cycleTag t st"
| "applyTagOp st (RemoveTag t) = removeTag t st"

definition tagsDisjoint :: "string set \<times> string set \<Rightarrow> bool" where
  "tagsDisjoint st = (fst st \<inter> snd st = {})"

section \<open>Import conflicts (FolderTreeSelector.tsx)\<close>

text \<open>
  \<^verbatim>\<open>PackConflict\<close> is the record of the shared type declarations.  The objects used as
  dictionaries (\<^verbatim>\<open>Record<string, ConflictAction>\<close>, \<^verbatim>\<open>Record<string, string>\<close>) are plain
  objects created by \<^verbatim>\<open>{}\<close>; they are modelled by their own properties, a map from keys
  to values, and the two ways the code writes a key are kept apart:

  \<^item> the assignment \<^verbatim>\<open>obj[k] = v\<close> (\<^verbatim>\<open>assignKey\<close>) overwrites an own property and
    otherwise consults the prototype chain.  \<^verbatim>\<open>Object.prototype\<close> has the accessor
    \<^verbatim>\<open>__proto__\<close>, whose setter ignores a value that is not an object, so assigning a
    string under the key \<^verbatim>\<open>__proto__\<close> leaves the object without that own property;
    every other key becomes an own property (the remaining members of
    \<^verbatim>\<open>Object.prototype\<close> are writable data properties, which an assignment shadows);
  \<^item> the object literal \<^verbatim>\<open>{ ...p, [k]: v }\<close> copies the own properties of \<^verbatim>\<open>p\<close> and
    defines the computed key as an own property, whatever the key.

  The test \<^verbatim>\<open>decisions[k] === "replace"\<close> holds exactly when \<^verbatim>\<open>k\<close> is an own property
  with that value: what a key inherits from \<^verbatim>\<open>Object.prototype\<close> is never a string.
\<close>

record PackConflict =
  name :: string
  existing_uuid :: string
  existing_sample_count :: nat

datatype ConflictAction = Replace | New

definition assignKey :: "(string \<rightharpoonup> 'v) \<Rightarrow> string \<Rightarrow> 'v \<Rightarrow> (string \<rightharpoonup> 'v)" where
  "assignKey obj k v = (if k = ''__proto__'' \<and> obj k = None then obj else obj(k \<mapsto> v))"

text \<open>
  The conflict dialog starts with every conflicting name assigned \<^verbatim>\<open>"replace"\<close>; the two
  buttons of a row build a new dictionary by an object literal with the row's name as
  computed key, and \<^verbatim>\<open>setAll\<close> rebuilds the whole dictionary by assignments.
\<close>

definition initDecisions :: "PackConflict list \<Rightarrow> (string \<rightharpoonup> ConflictAction)" where
  "initDecisions conflicts = foldl (\<lambda>init c. assignKey init (name c) Replace) Map.empty conflicts"

definition setDecision ::
  "(string \<rightharpoonup> ConflictAction) \<Rightarrow> PackConflict \<Rightarrow> ConflictAction \<Rightarrow> (string \<rightharpoonup> ConflictAction)" where
  "setDecision p c action = p(name c \<mapsto> action)"

definition setAll :: "PackConflict list \<Rightarrow> ConflictAction \<Rightarrow> (string \<rightharpoonup> ConflictAction)" where
  "setAll conflicts action = foldl (\<lambda>next c. assignKey next (name c) action) Map.empty conflicts"

text \<open>
  \<^verbatim>\<open>handleConflictConfirm\<close> walks the conflicts in order, assigns the
  \<^verbatim>\<open>existing_uuid\<close> under the name of every conflict whose decision reads
  \<^verbatim>\<open>"replace"\<close>, and hands the selected paths and the \<^verbatim>\<open>replaceMap\<close> to
  \<^verbatim>\<open>onConfirm\<close>; the model returns that pair of arguments.
\<close>

definition handleConflictConfirm ::
  "string set \<Rightarrow> PackConflict list \<Rightarrow> (string \<rightharpoonup> ConflictAction) \<Rightarrow>
     string set \<times> (string \<rightharpoonup> string)" where
  "handleConflictConfirm selected conflicts decisions =
     (let paths = selected;
          replaceMap = foldl (\<lambda>replaceMap c.
              if decisions (name c) = Some Replace
              then assignKey replaceMap (name c) (existing_uuid c) else replaceMap)
            Map.empty conflicts
      in (paths, replaceMap))"

text \<open>
  Two conflicts, Drums and Keys; the user keeps the default for Drums and picks
  "add as new" for Keys; Fx is selected and conflicts with nothing.
\<close>

definition demoConflicts :: "PackConflict list" where
  "demoConflicts =
     [\<lparr>name = ''Drums'', existing_uuid = ''u-1'', existing_sample_count = 12\<rparr>,
      \<lparr>name = ''Keys'', existing_uuid = ''u-2'', existing_sample_count = 3\<rparr>]"

definition demoDecisions :: "string \<rightharpoonup> ConflictAction" where
  "demoDecisions = setDecision (initDecisions demoConflicts) (demoConflicts ! 1) New"

text \<open>
  A folder named \<^verbatim>\<open>__proto__\<close> is selected and a pack of that name exists.  The dialog
  opens (its row shows neither button chosen, the initial assignment having left no
  entry), and the user presses "replace existing" on the row.
\<close>

definition protoConflicts :: "PackConflict list" where
  "protoConflicts =
     [\<lparr>name = ''__proto__'', existing_uuid = ''u-7'', existing_sample_count = 5\<rparr>]"

definition protoDecisions :: "string \<rightharpoonup> ConflictAction" where
  "protoDecisions = setDecision (initDecisions protoConflicts) (protoConflicts ! 0) Replace"

section \<open>Engine built-ins\<close>

text \<open>
  The string methods whose result depends on the engine's Unicode tables and on the
  locale are parameters of the model: every theorem below holds for each choice of
  them.  \<^verbatim>\<open>localeCompare\<close> returns a negative, zero or positive number.
\<close>

record builtins =
  toLowerCase :: "string \<Rightarrow> string"
  toUpperCase :: "string \<Rightarrow> string"
  trim :: "string \<Rightarrow> string"
  localeCompare :: "string \<Rightarrow> string \<Rightarrow> int"

text \<open>\<^verbatim>\<open>s.includes(q)\<close>: \<open>q\<close> occurs in \<open>s\<close> as a run of consecutive code units.\<close>

fun includesStr :: "string \<Rightarrow> string \<Rightarrow> bool" where
  "includesStr [] q = (q = [])"
| "includesStr (c # cs) q = (startsWith (c # cs) q \<or> includesStr cs q)"

text \<open>\<^verbatim>\<open>s.split(sep)\<close> for a separator of one code unit; the empty string splits into one empty piece.\<close>

fun split :: "char \<Rightarrow> string \<Rightarrow> string list" where
  "split sep [] = [[]]"
| "split sep (c # cs) =
     (if c = sep then [] # split sep cs
      else (case split sep cs of [] \<Rightarrow> [[c]] | w # ws \<Rightarrow> (c # w) # ws))"

text \<open>
  A value of type \<^verbatim>\<open>string | null\<close> is an option; it is falsy when it is
  \<^verbatim>\<open>null\<close> or the empty string.  \<^verbatim>\<open>a || b\<close> is \<open>orElse a b\<close>, and
  \<^verbatim>\<open>a || ""\<close> is \<open>orEmpty a\<close>.
\<close>

definition truthy :: "string option \<Rightarrow> bool" where
  "truthy a = (case a of None \<Rightarrow> False | Some s \<Rightarrow> s \<noteq> [])"

definition orElse :: "string option \<Rightarrow> string option \<Rightarrow> string option" where
  "orElse a b = (if truthy a then a else b)"

definition orEmpty :: "string option \<Rightarrow> string" where
  "orEmpty a = (case a of None \<Rightarrow> [] | Some s \<Rightarrow> s)"

section \<open>Samples and filters (shared type declarations, SampleBrowser.tsx)\<close>

record Sample =
  sample_id :: int
  local_path :: string
  filename :: string
  audio_key :: "string option"
  bpm :: "int option"
  chord_type :: "string option"
  duration :: "int option"
  genre :: "string option"
  sample_type :: "string option"
  tags :: "string option"
  pack_uuid :: "string option"
  pack_name :: "string option"
  pack_genre :: "string option"
  created_at :: "string option"

record BpmRange =
  bpm_min :: int
  bpm_max :: int

definition formatKey :: "builtins \<Rightarrow> string option \<Rightarrow> string option \<Rightarrow> string option" where
  "formatKey E audioKey chordType =
     (case audioKey of
        None \<Rightarrow> None
      | Some a \<Rightarrow>
          if a = [] then None
          else
            let k = toUpperCase E (take 1 a) @ drop 1 a in
            if chordType = Some ''minor'' then Some (k @ ''m'') else Some k)"

text \<open>
  The tag list of a sample as the three tag filters compute it:
  \<^verbatim>\<open>s.tags.split(",").map((t) => t.trim())\<close>.
\<close>

definition splitTags :: "builtins \<Rightarrow> string \<Rightarrow> string list" where
  "splitTags E t = map (trim E) (split CHR '','' t)"

text \<open>
  \<^verbatim>\<open>applyFilters\<close>: \<open>r\<close> starts as the sample list and each active category
  replaces it by a filtered copy, in the order of the source.  A \<^verbatim>\<open>Set\<close> is a set;
  \<^verbatim>\<open>size > 0\<close> is non-emptiness and \<^verbatim>\<open>has\<close> is membership.
\<close>

definition applyFilters ::
  "builtins \<Rightarrow> Sample list \<Rightarrow> string set \<Rightarrow> BpmRange option \<Rightarrow> string set \<Rightarrow> string \<Rightarrow>
     string set \<Rightarrow> string set \<Rightarrow> string set \<Rightarrow> string \<Rightarrow> Sample list" where
  "applyFilters E samples selectedGenres bpmRange selectedKeys sampleType
       selectedInstruments includeTags excludeTags query =
     (let r = samples;
          r = (if length query \<ge> 2 then
                 (let q = toLowerCase E query in
                  filter (\<lambda>s. includesStr (toLowerCase E (filename s)) q \<or>
                               includesStr (toLowerCase E (orEmpty (pack_name s))) q \<or>
                               includesStr (toLowerCase E (orEmpty (tags s))) q) r)
               else r);
          r = (if selectedGenres \<noteq> {} then
                 filter (\<lambda>s. let g = orElse (genre s) (pack_genre s) in
                              (case g of None \<Rightarrow> False | Some g' \<Rightarrow> g' \<in> selectedGenres)) r
               else r);
          r = (case bpmRange of
                 None \<Rightarrow> r
               | Some br \<Rightarrow>
                   filter (\<lambda>s. case bpm s of
                                  None \<Rightarrow> False
                                | Some b \<Rightarrow> b \<ge> bpm_min br \<and> b \<le> bpm_max br) r);
          r = (if selectedKeys \<noteq> {} then
                 filter (\<lambda>s. let k = formatKey E (audio_key s) (chord_type s) in
                              (case k of None \<Rightarrow> False | Some k' \<Rightarrow> k' \<in> selectedKeys)) r
               else r);
          r = (if sampleType \<noteq> ''all'' then
                 filter (\<lambda>s. sample_type s = Some sampleType) r
               else r);
          r = (if selectedInstruments \<noteq> {} then
                 filter (\<lambda>s. if \<not> truthy (tags s) then False
                              else let st = splitTags E (orEmpty (tags s)) in
                                   list_ex (\<lambda>t. t \<in> selectedInstruments) st) r
               else r);
          r = (if includeTags \<noteq> {} then
                 filter (\<lambda>s. if \<not> truthy (tags s) then False
                              else let st = splitTags E (orEmpty (tags s)) in
                                   list_ex (\<lambda>t. t \<in> includeTags) st) r
               else r);
          r = (if excludeTags \<noteq> {} then
                 filter (\<lambda>s. if \<not> truthy (tags s) then True
                              else let st = splitTags E (orEmpty (tags s)) in
                                   \<not> list_ex (\<lambda>t. t \<in> excludeTags) st) r
               else r)
      in r)"

text \<open>The tags a sample carries for the tag filters: none when \<^verbatim>\<open>tags\<close> is falsy.\<close>

definition tagList :: "builtins \<Rightarrow> Sample \<Rightarrow> string list" where
  "tagList E s = (if truthy (tags s) then splitTags E (orEmpty (tags s)) else [])"

text \<open>An instance of the built-ins on ASCII text, for evaluating examples.\<close>

definition asciiLower :: "char \<Rightarrow> char" where
  "asciiLower c =
     (let n = (of_char c :: nat) in if 65 \<le> n \<and> n \<le> 90 then char_of (n + 32) else c)"

definition asciiUpper :: "char \<Rightarrow> char" where
  "asciiUpper c =
     (let n = (of_char c :: nat) in if 97 \<le> n \<and> n \<le> 122 then char_of (n - 32) else c)"

definition asciiTrim :: "string \<Rightarrow> string" where
  "asciiTrim s = rev (dropWhile (\<lambda>c. c = CHR '' '') (rev (dropWhile (\<lambda>c. c = CHR '' '') s)))"

fun codeUnitCompare :: "string \<Rightarrow> string \<Rightarrow> int" where
  "codeUnitCompare [] [] = 0"
| "codeUnitCompare [] (y # ys) = - 1"
| "codeUnitCompare (x # xs) [] = 1"
| "codeUnitCompare (x # xs) (y # ys) =
     (if (of_char x :: nat) < of_char y then - 1
      else if (of_char y :: nat) < of_char x then 1
      else codeUnitCompare xs ys)"

definition asciiBuiltins :: builtins where
  "asciiBuiltins =
     \<lparr>toLowerCase = map asciiLower, toUpperCase = map asciiUpper, trim = asciiTrim,
      localeCompare = codeUnitCompare\<rparr>"

text \<open>A sample with a genre and a tempo and nothing else, as in the specification's example.\<close>

definition genreBpmSample :: "int \<Rightarrow> string \<Rightarrow> int \<Rightarrow> Sample" where
  "genreBpmSample i g b =
     \<lparr>sample_id = i, local_path = [], filename = [], audio_key = None, bpm = Some b,
      chord_type = None, duration = None, genre = Some g, sample_type = None, tags = None,
      pack_uuid = None, pack_name = None, pack_genre = None, created_at = None\<rparr>"

text \<open>The free-text test of one sample, as the first filter of \<^verbatim>\<open>applyFilters\<close> writes it.\<close>

definition queryMatch :: "builtins \<Rightarrow> string \<Rightarrow> Sample \<Rightarrow> bool" where
  "queryMatch E query s =
     (includesStr (toLowerCase E (filename s)) (toLowerCase E query) \<or>
      includesStr (toLowerCase E (orEmpty (pack_name s))) (toLowerCase E query) \<or>
      includesStr (toLowerCase E (orEmpty (tags s))) (toLowerCase E query))"


text \<open>Samples with a file name, a pack name and tags, for the free-text example.\<close>

definition namedSample :: "int \<Rightarrow> string \<Rightarrow> string option \<Rightarrow> string option \<Rightarrow> Sample" where
  "namedSample i f p t =
     \<lparr>sample_id = i, local_path = [], filename = f, audio_key = None, bpm = None,
      chord_type = None, duration = None, genre = None, sample_type = None, tags = t,
      pack_uuid = None, pack_name = p, pack_genre = None, created_at = None\<rparr>"

section \<open>Sorting (SampleBrowser.tsx)\<close>

text \<open>
  \<^verbatim>\<open>Array.prototype.sort(compareFn)\<close> is a stable sort, and the engines of the
  webviews the application runs in consult the comparator through one test only,
  \<^verbatim>\<open>compareFn(x, y) < 0\<close>: V8's sort (binary insertion for a short array, the merges of
  TimSort for a long one) and JavaScriptCore's merge sort both ask whether one element is
  less than another and treat every other answer as "not less".  The model is the stable
  insertion sort with that test: the elements are taken in input order, and each one is
  placed into the sorted prefix before the first element it is less than, after every
  element it is not less than.  Whenever the test is a strict weak order, a stable sort
  has no other result.  It is one for every comparator of \<^verbatim>\<open>sortSamples\<close>, also for
  those of \<^verbatim>\<open>bpm\<close> and \<^verbatim>\<open>duration\<close>: on two samples without value they answer 1
  in both orders, which reads "not less" both ways, so these samples are ties and keep
  their input order.
\<close>

fun insertBy :: "('a \<Rightarrow> 'a \<Rightarrow> int) \<Rightarrow> 'a \<Rightarrow> 'a list \<Rightarrow> 'a list" where
  "insertBy cmp x [] = [x]"
| "insertBy cmp x (y # ys) = (if cmp x y < 0 then x # y # ys else y # insertBy cmp x ys)"

definition arraySort :: "('a \<Rightarrow> 'a \<Rightarrow> int) \<Rightarrow> 'a list \<Rightarrow> 'a list" where
  "arraySort cmp xs = foldl (\<lambda>sorted x. insertBy cmp x sorted) [] xs"

text \<open>
  The shuffle loop runs \<open>i\<close> from the last index down to 1 and swaps the elements at
  \<open>i\<close> and \<open>j\<close>; \<open>draw i\<close> stands for the index
  \<^verbatim>\<open>Math.floor(Math.random() * (i + 1))\<close> drawn at loop index \<open>i\<close>, which is at most \<open>i\<close>.
\<close>

fun shuffleFrom :: "(nat \<Rightarrow> nat) \<Rightarrow> nat \<Rightarrow> 'a list \<Rightarrow> 'a list" where
  "shuffleFrom draw 0 arr = arr"
| "shuffleFrom draw (Suc i) arr =
     (let j = draw (Suc i) in
      shuffleFrom draw i (arr[Suc i := arr ! j, j := arr ! Suc i]))"

text \<open>
  The comparators handed to \<^verbatim>\<open>sort\<close> for the keys \<^verbatim>\<open>bpm\<close> and \<^verbatim>\<open>duration\<close>:
  the two null tests come first, the direction only multiplies the difference.
\<close>

definition compareBpm :: "int \<Rightarrow> Sample \<Rightarrow> Sample \<Rightarrow> int" where
  "compareBpm dir a b =
     (case bpm a of
        None \<Rightarrow> 1
      | Some x \<Rightarrow> (case bpm b of None \<Rightarrow> - 1 | Some y \<Rightarrow> (x - y) * dir))"

definition compareDuration :: "int \<Rightarrow> Sample \<Rightarrow> Sample \<Rightarrow> int" where
  "compareDuration dir a b =
     (case duration a of
        None \<Rightarrow> 1
      | Some x \<Rightarrow> (case duration b of None \<Rightarrow> - 1 | Some y \<Rightarrow> (x - y) * dir))"

definition sortSamples ::
  "builtins \<Rightarrow> (nat \<Rightarrow> nat) \<Rightarrow> Sample list \<Rightarrow> string \<Rightarrow> string \<Rightarrow> Sample list" where
  "sortSamples E draw samples sortBy sortDir =
     (if sortBy = ''shuffle'' then shuffleFrom draw (length samples - 1) samples
      else
        let dir = (if sortDir = ''desc'' then - 1 else 1 :: int) in
        if sortBy = ''bpm'' then arraySort (compareBpm dir) samples
        else if sortBy = ''duration'' then arraySort (compareDuration dir) samples
        else if sortBy = ''recent'' then
          arraySort (\<lambda>a b. let aDate = orEmpty (created_at a); bDate = orEmpty (created_at b)
                           in localeCompare E bDate aDate * dir)
            samples
        else
          arraySort (\<lambda>a b. localeCompare E (filename a) (filename b) * dir) samples)"

text \<open>
  In a list, every element without a value of the field \<open>f\<close> comes after all elements
  with a value: no element without value stands before an element with one.
\<close>

definition nullsLast :: "('a \<Rightarrow> 'b option) \<Rightarrow> 'a list \<Rightarrow> bool" where
  "nullsLast f xs = (\<forall>i j. i < j \<and> j < length xs \<and> f (xs ! i) = None \<longrightarrow> f (xs ! j) = None)"

text \<open>A sample with a tempo and a duration, either of which may be absent.\<close>

definition timedSample :: "int \<Rightarrow> int option \<Rightarrow> int option \<Rightarrow> Sample" where
  "timedSample i b d =
     \<lparr>sample_id = i, local_path = [], filename = [], audio_key = None, bpm = b,
      chord_type = None, duration = d, genre = None, sample_type = None, tags = None,
      pack_uuid = None, pack_name = None, pack_genre = None, created_at = None\<rparr>"

text \<open>
  Four samples: two without tempo (the first of them without duration as well), two with
  a tempo.
\<close>

definition tempoMix :: "Sample list" where
  "tempoMix =
     [timedSample 1 None None, timedSample 4 None (Some 500),
      timedSample 2 (Some 120) (Some 300), timedSample 3 (Some 90) None]"

section \<open>Numbers\<close>

text \<open>
  A JavaScript number is an IEEE 754 binary64 value; a finite one is modelled as the real
  number it denotes.  Division and multiplication return the exact result rounded to the
  nearest value with a significand of 53 bits, ties to even (\<open>round64\<close>).  The exponent
  range is not bounded in the model: it agrees with binary64 on results whose magnitude
  is zero or lies between 2 to the power -1022 and 2 to the power 1024,
  which covers every quotient and product of array lengths and indices.
\<close>

fun log2floor :: "nat \<Rightarrow> nat" where
  "log2floor n = (if n < 2 then 0 else Suc (log2floor (n div 2)))"

definition pow2 :: "int \<Rightarrow> real" where
  "pow2 k = (if 0 \<le> k then 2 ^ nat k else 1 / 2 ^ nat (- k))"

text \<open>The binary exponent \<open>e\<close> of a positive number: \<open>2\<^sup>e \<le> x < 2\<^sup>e\<^sup>+\<^sup>1\<close>.\<close>

definition exponent :: "real \<Rightarrow> int" where
  "exponent x =
     (if 1 \<le> x then int (log2floor (nat \<lfloor>x\<rfloor>))
      else let m = nat \<lceil>1 / x\<rceil> in
           - int (if m \<le> 1 then 0 else Suc (log2floor (m - 1))))"

definition roundHalfEven :: "real \<Rightarrow> int" where
  "roundHalfEven q =
     (let n = \<lfloor>q\<rfloor>; r = q - of_int n in
      if r < 1 / 2 then n else if 1 / 2 < r then n + 1 else if even n then n else n + 1)"

definition round64 :: "real \<Rightarrow> real" where
  "round64 x =
     (if x = 0 then 0
      else let a = \<bar>x\<bar>; ulp = pow2 (exponent a - 52)
           in sgn x * (of_int (roundHalfEven (a / ulp)) * ulp))"

definition fdiv :: "real \<Rightarrow> real \<Rightarrow> real" where
  "fdiv a b = round64 (a / b)"

definition fmul :: "real \<Rightarrow> real \<Rightarrow> real" where
  "fmul a b = round64 (a * b)"

section \<open>Waveform downsampling (SampleBrowser.tsx)\<close>

text \<open>
  The inner loop of \<^verbatim>\<open>downsample\<close>: \<open>max\<close> starts at 0 and takes every larger
  \<open>peaks[j]\<close> for \<open>j\<close> from \<open>start\<close> to \<open>end - 1\<close>.  A read past the end of the array
  yields \<^verbatim>\<open>undefined\<close>, which compares greater than nothing and is skipped.
\<close>

definition windowMax :: "real list \<Rightarrow> nat \<Rightarrow> nat \<Rightarrow> real" where
  "windowMax peaks start end =
     fold (\<lambda>j mx. if j < length peaks \<and> mx < peaks ! j then peaks ! j else mx) [start..<end] 0"

text \<open>
  The bounds of window \<open>i\<close>: \<^verbatim>\<open>Math.floor(i * ratio)\<close> and
  \<^verbatim>\<open>Math.floor((i + 1) * ratio)\<close> with \<^verbatim>\<open>ratio = peaks.length / target\<close>, the
  quotient and the products being binary64 operations.
\<close>

definition windowStart :: "nat \<Rightarrow> nat \<Rightarrow> nat \<Rightarrow> nat" where
  "windowStart len target i =
     (let ratio = fdiv (real len) (real target) in nat \<lfloor>fmul (real i) ratio\<rfloor>)"

definition windowEnd :: "nat \<Rightarrow> nat \<Rightarrow> nat \<Rightarrow> nat" where
  "windowEnd len target i =
     (let ratio = fdiv (real len) (real target) in nat \<lfloor>fmul (real (i + 1)) ratio\<rfloor>)"

definition downsample :: "real list \<Rightarrow> nat \<Rightarrow> real list" where
  "downsample peaks target =
     (if length peaks \<le> target then peaks
      else map (\<lambda>i. windowMax peaks (windowStart (length peaks) target i)
                                   (windowEnd (length peaks) target i))
             [0..<target])"

text \<open>
  The window of the claim under test: the bounds \<open>\<lfloor>i\<cdot>n/t\<rfloor>\<close> and \<open>\<lfloor>(i+1)\<cdot>n/t\<rfloor>\<close> in
  exact arithmetic, and the largest peak between them.
\<close>

definition exactWindowMax :: "real list \<Rightarrow> nat \<Rightarrow> nat \<Rightarrow> real" where
  "exactWindowMax p t i =
     Max ((\<lambda>j. p ! j) ` {(i * length p) div t ..< ((i + 1) * length p) div t})"

text \<open>Fifteen peaks, silent but for the last one.\<close>

definition lastPeakOnly :: "real list" where
  "lastPeakOnly = replicate 14 0 @ [1]"

section \<open>Waveform request queue (SampleBrowser.tsx)\<close>

text \<open>
  The module-level state of the limiter: the counter \<^verbatim>\<open>_activeReqs\<close> and the array
  \<^verbatim>\<open>_queue\<close>.  A \<^verbatim>\<open>_QueueItem\<close> is an object with identity; the model names it by a
  number, allocated by \<^verbatim>\<open>_enqueue\<close>, and keeps the \<^verbatim>\<open>cancelled\<close> flags as the set
  of flagged items.  Beside the source's own state the model records what the
  environment holds: the items whose \<^verbatim>\<open>fn()\<close> promise is still pending (\<open>running\<close>),
  the log of \<^verbatim>\<open>fn()\<close> calls (\<open>invoked\<close>) and the number of scheduled
  \<^verbatim>\<open>setTimeout(_processQueue, 0)\<close> callbacks (\<open>timers\<close>).  JavaScript runs each
  callback to completion, so every function below is one atomic step.
\<close>

type_synonym item = nat

record queueState =
  activeReqs :: nat
  queue :: "item list"
  cancelledItems :: "item set"
  running :: "item set"
  invoked :: "item list"
  timers :: nat
  nextItem :: item

definition MAX_CONCURRENT :: nat where
  "MAX_CONCURRENT = 1"

definition initialQueue :: queueState where
  "initialQueue =
     \<lparr>activeReqs = 0, queue = [], cancelledItems = {}, running = {}, invoked = [],
      timers = 0, nextItem = 0\<rparr>"

text \<open>
  \<^verbatim>\<open>_processQueue\<close>: while a slot is free and the queue is not empty, pop the most
  recent item; skip it when it is cancelled, otherwise take the slot, call its function
  and return.  \<^verbatim>\<open>push\<close> appends and \<^verbatim>\<open>pop\<close> removes at the end of the list.
\<close>

function processQueue :: "queueState \<Rightarrow> queueState" where
  "processQueue s =
     (if activeReqs s < MAX_CONCURRENT \<and> queue s \<noteq> [] then
        let item = last (queue s);
            s1 = s\<lparr>queue := butlast (queue s)\<rparr>
        in if item \<in> cancelledItems s1 then processQueue s1
           else s1\<lparr>activeReqs := activeReqs s1 + 1,
                   invoked := invoked s1 @ [item],
                   running := insert item (running s1)\<rparr>
      else s)"
  by pat_completeness auto
termination
  by (relation "measure (\<lambda>s. length (queue s))") auto

text \<open>
  \<^verbatim>\<open>_enqueue(fn)\<close> creates the item, pushes it, processes the queue when a slot is
  free and returns the cancel function of the item; the model returns the item, and
  \<open>cancel\<close> is the call of that function.
\<close>

definition enqueue :: "queueState \<Rightarrow> item \<times> queueState" where
  "enqueue s =
     (let item = nextItem s;
          s1 = s\<lparr>queue := queue s @ [item], nextItem := Suc item\<rparr>;
          s2 = (if activeReqs s1 < MAX_CONCURRENT then processQueue s1 else s1)
      in (item, s2))"

definition cancel :: "item \<Rightarrow> queueState \<Rightarrow> queueState" where
  "cancel item s = s\<lparr>cancelledItems := insert item (cancelledItems s)\<rparr>"

text \<open>
  The promise of a running item settles: the \<^verbatim>\<open>finally\<close> callback releases the slot
  and schedules \<^verbatim>\<open>_processQueue\<close>.  Later the scheduled callback runs.
\<close>

definition settle :: "item \<Rightarrow> queueState \<Rightarrow> queueState" where
  "settle item s =
     (if item \<in> running s
      then s\<lparr>running := running s - {item}, activeReqs := activeReqs s - 1,
             timers := timers s + 1\<rparr>
      else s)"

definition timerFires :: "queueState \<Rightarrow> queueState" where
  "timerFires s = (if 0 < timers s then processQueue (s\<lparr>timers := timers s - 1\<rparr>) else s)"

datatype event = Enqueue | Cancel item | Settle item | Timer

fun step :: "queueState \<Rightarrow> event \<Rightarrow> queueState" where
  "step s Enqueue = snd (enqueue s)"
| "step s (Cancel i) = cancel i s"
| "step s (Settle i) = settle i s"
| "step s Timer = timerFires s"

definition run :: "event list \<Rightarrow> queueState" where
  "run es = foldl step initialQueue es"

text \<open>The invariant of the limiter, and what holds of an item cancelled in the queue.\<close>

definition queueInv :: "queueState \<Rightarrow> bool" where
  "queueInv s =
     (finite (running s) \<and> activeReqs s = card (running s) \<and> activeReqs s \<le> MAX_CONCURRENT \<and>
      distinct (queue s) \<and>
      list_all (\<lambda>i. i < nextItem s) (queue s) \<and> list_all (\<lambda>i. i < nextItem s) (invoked s) \<and>
      set (queue s) \<inter> set (invoked s) = {} \<and> running s \<subseteq> set (invoked s))"

definition neverInvoked :: "item \<Rightarrow> queueState \<Rightarrow> bool" where
  "neverInvoked i s = (i \<in> cancelledItems s \<and> i \<notin> set (invoked s) \<and> i < nextItem s)"

section \<open>Pagination (SampleBrowser.tsx)\<close>

text \<open>
  The dependency lists of React hooks are compared with \<^verbatim>\<open>Object.is\<close>: strings and
  numbers by value, arrays, sets and objects by identity.  An object is therefore a
  value together with an identity.  The objects the component receives (\<open>Outer\<close>: the
  \<^verbatim>\<open>samples\<close> array and the arrays of the search parameters) are named by their address
  in a store; the application never changes such an array in place, it passes another
  array, so an address stands for one array with one content.  The objects the component
  creates itself (\<open>Inner\<close>: the sets, the tempo range, the arrays returned by
  \<^verbatim>\<open>filter\<close> and by the copy in \<^verbatim>\<open>sortSamples\<close>) take their identity from a counter
  that moves on with every allocation, so a new object is identical to no earlier one.
\<close>

datatype ref = Outer nat | Inner nat

datatype 'a obj = Obj (identity: ref) (content: 'a)

record store =
  stringArrays :: "nat \<Rightarrow> string list"
  sampleArrays :: "nat \<Rightarrow> Sample list"



text \<open>\<^verbatim>\<open>arr || []\<close> for an optional array: every array, also the empty one, is truthy.\<close>

definition arrayOrEmpty :: "store \<Rightarrow> nat option \<Rightarrow> string list" where
  "arrayOrEmpty st arr = (case arr of None \<Rightarrow> [] | Some a \<Rightarrow> stringArrays st a)"

text \<open>
  \<^verbatim>\<open>useMemo(create, deps)\<close>: the cell of the hook holds the dependencies and the value
  of the last render; the value is created anew when there is no last render or a
  dependency differs.  \<open>create\<close> receives the identity for the object it may allocate, and
  the counter of identities moves on when it ran.
\<close>

definition useMemo :: "('d \<times> 'v) option \<Rightarrow> 'd \<Rightarrow> (nat \<Rightarrow> 'v) \<Rightarrow> nat \<Rightarrow> ('d \<times> 'v) \<times> nat" where
  "useMemo cell deps create n =
     (case cell of
        None \<Rightarrow> ((deps, create n), Suc n)
      | Some (d, v) \<Rightarrow> if d = deps then ((d, v), n) else ((deps, create n), Suc n))"





type_synonym filteredDeps =
  "ref \<times> ref \<times> ref option \<times> ref \<times> string \<times> ref \<times> ref \<times> ref \<times> string"

text \<open>
  What the component keeps between renders: the two state cells \<open>page\<close> and
  \<open>shuffleSeed\<close>, the cells of the \<^verbatim>\<open>useMemo\<close> hooks, the dependencies the page-reset
  effect last ran with, and the counter of identities.
\<close>

record hooks =
  page :: nat
  shuffleSeed :: nat
  memoSelectedGenres :: "(nat option \<times> string set obj) option"
  memoSelectedInstruments :: "(nat option \<times> string set obj) option"
  memoBpmRange :: "((int option \<times> int option) \<times> BpmRange obj option) option"
  memoSelectedKeys :: "(nat option \<times> string set obj) option"
  memoIncludeTags :: "(nat option \<times> string set obj) option"
  memoExcludeTags :: "(nat option \<times> string set obj) option"
  memoFiltered :: "(filteredDeps \<times> Sample list obj) option"
  memoSorted :: "((ref \<times> string \<times> string \<times> nat) \<times> Sample list obj) option"
  effectDeps :: "(ref \<times> string \<times> nat) option"
  nextRef :: nat





text \<open>The values of the last render: \<^verbatim>\<open>filtered\<close>, \<^verbatim>\<open>sorted\<close> and \<^verbatim>\<open>displayed\<close>.\<close>

definition filteredOf :: "hooks \<Rightarrow> Sample list obj option" where
  "filteredOf h = map_option snd (memoFiltered h)"









text \<open>An identity the component allocated before the counter reached \<open>n\<close>.\<close>

definition innerBelow :: "nat \<Rightarrow> ref \<Rightarrow> bool" where
  "innerBelow n r = (case r of Outer k \<Rightarrow> False | Inner k \<Rightarrow> k < n)"

definition setCell ::
  "store \<Rightarrow> nat \<Rightarrow> (nat option \<times> string set obj) option \<Rightarrow> nat option \<Rightarrow> string set obj \<Rightarrow> bool"
  where
  "setCell st n cell arr S =
     (cell = Some (arr, S) \<and> innerBelow n (identity S) \<and> content S = set (arrayOrEmpty st arr))"










section \<open>Theorems\<close>

subsection \<open>Strings and sets\<close>

lemma startsWith_prefix: "startsWith s p = prefix p s"
  unfolding startsWith_def prefix_def
  by (metis append_eq_conv_conj append_take_drop_id)

lemma startsWith_length: "startsWith s p \<Longrightarrow> length p \<le> length s"
  unfolding startsWith_prefix by (rule prefix_length_le)

lemma startsWith_trans:
  "startsWith b (a @ x) \<Longrightarrow> startsWith c (b @ y) \<Longrightarrow> startsWith c (a @ x)"
  unfolding startsWith_prefix
  by (meson prefix_order.order_trans prefix_prefix)

lemma Set_filter_empty: "Set.filter P {} = {}"
  by auto

lemma Set_filter_insert:
  "Set.filter P (insert x A) = (if P x then insert x (Set.filter P A) else Set.filter P A)"
  by auto


subsection \<open>Folder tree selection\<close>

lemma noNested_toggle: "noNested sel \<Longrightarrow> noNested (onToggleSelect path sel)"
proof (cases "path \<in> sel")
  case True
  assume "noNested sel"
  with True show ?thesis
    by (auto simp: noNested_def onToggleSelect_def)
next
  case False
  assume inv: "noNested sel"
  have self: "\<not> startsWith path (path @ ''/'')"
    using startsWith_length [of path "path @ ''/''"] by auto
  from False inv self show ?thesis
    by (auto simp: noNested_def onToggleSelect_def Let_def)
qed

lemma noNested_foldl:
  "noNested sel \<Longrightarrow> noNested (foldl (\<lambda>sel path. onToggleSelect path sel) sel clicks)"
  by (induction clicks arbitrary: sel) (simp_all add: noNested_toggle)

text \<open>
  C9.  Starting from the empty selection, after any sequence of \<^verbatim>\<open>onToggleSelect\<close>
  calls no selected path is a strict descendant of another (no selected path extended with
  a slash is a prefix of another selected path); and selecting a path that is not
  selected yields the previous selection without the descendants and the ancestors of the
  path, plus the path itself.
\<close>

theorem C9_selection_never_nested:
  "noNested (selectedAfter clicks) \<and>
   (path \<notin> sel \<longrightarrow>
      onToggleSelect path sel =
        insert path {p \<in> sel. \<not> startsWith p (path @ ''/'') \<and> \<not> startsWith path (p @ ''/'')})"
proof
  have "noNested {}" by (simp add: noNested_def)
  then show "noNested (selectedAfter clicks)"
    unfolding selectedAfter_def by (rule noNested_foldl)
next
  show "path \<notin> sel \<longrightarrow>
      onToggleSelect path sel =
        insert path {p \<in> sel. \<not> startsWith p (path @ ''/'') \<and> \<not> startsWith path (p @ ''/'')}"
    by (auto simp: onToggleSelect_def Let_def)
qed

theorem C9_selection_never_nested_witness:
  "selectedAfter [''/a/b'', ''/c'', ''/a''] = {''/c'', ''/a''} \<and> noNested {''/c'', ''/a''} \<and>
   onToggleSelect ''/a'' {''/a/b'', ''/c''} = {''/a'', ''/c''}"
proof -
  have e1: "selectedAfter [''/a/b'', ''/c'', ''/a''] = {''/c'', ''/a''}"
    by (simp del: Set.filter_eq
        add: selectedAfter_def onToggleSelect_def startsWith_def Let_def
             Set_filter_empty Set_filter_insert insert_commute)
  have e2: "onToggleSelect ''/a'' {''/a/b'', ''/c''} = {''/a'', ''/c''}"
    by (simp del: Set.filter_eq
        add: onToggleSelect_def startsWith_def Let_def
             Set_filter_empty Set_filter_insert insert_commute)
  from C9_selection_never_nested [of "[''/a/b'', ''/c'', ''/a'']" "''/a''" "{''/a/b'', ''/c''}"]
  have "noNested (selectedAfter [''/a/b'', ''/c'', ''/a''])" by (rule conjunct1)
  with e1 e2 show ?thesis by simp
qed

subsection \<open>Tag include / exclude cycle\<close>

lemma tagsDisjoint_applyTagOp: "tagsDisjoint st \<Longrightarrow> tagsDisjoint (applyTagOp st op)"
  by (cases op) (auto simp: tagsDisjoint_def cycleTag_def removeTag_def Let_def)

lemma tagsDisjoint_foldl: "tagsDisjoint st \<Longrightarrow> tagsDisjoint (foldl applyTagOp st ops)"
  by (induction ops arbitrary: st) (simp_all add: tagsDisjoint_applyTagOp)

text \<open>
  C10.  From disjoint include and exclude sets, every sequence of \<^verbatim>\<open>cycleTag\<close> and
  \<^verbatim>\<open>removeTag\<close> calls leaves the two sets disjoint; one \<^verbatim>\<open>cycleTag\<close> moves
  its tag from neither set to include, from include to exclude and from exclude to
  neither set, and changes the membership of no other tag.
\<close>

theorem C10_tag_cycle_disjoint:
  assumes "inc \<inter> exc = {}"
  shows "tagsDisjoint (foldl applyTagOp (inc, exc) ops) \<and>
         (t \<notin> inc \<and> t \<notin> exc \<longrightarrow> cycleTag t (inc, exc) = (insert t inc, exc)) \<and>
         (t \<in> inc \<longrightarrow> cycleTag t (inc, exc) = (inc - {t}, insert t exc) \<and> t \<notin> inc - {t}) \<and>
         (t \<in> exc \<longrightarrow> cycleTag t (inc, exc) = (inc, exc - {t}) \<and> t \<notin> inc) \<and>
         (\<forall>u. u \<noteq> t \<longrightarrow>
            (u \<in> fst (cycleTag t (inc, exc)) \<longleftrightarrow> u \<in> inc) \<and>
            (u \<in> snd (cycleTag t (inc, exc)) \<longleftrightarrow> u \<in> exc))"
proof -
  have "tagsDisjoint (inc, exc)"
    using assms by (simp add: tagsDisjoint_def)
  then have seq: "tagsDisjoint (foldl applyTagOp (inc, exc) ops)"
    by (rule tagsDisjoint_foldl)
  have step: "(t \<notin> inc \<and> t \<notin> exc \<longrightarrow> cycleTag t (inc, exc) = (insert t inc, exc)) \<and>
         (t \<in> inc \<longrightarrow> cycleTag t (inc, exc) = (inc - {t}, insert t exc) \<and> t \<notin> inc - {t}) \<and>
         (t \<in> exc \<longrightarrow> cycleTag t (inc, exc) = (inc, exc - {t}) \<and> t \<notin> inc)"
    using assms by (auto simp: cycleTag_def)
  have others: "\<forall>u. u \<noteq> t \<longrightarrow>
            (u \<in> fst (cycleTag t (inc, exc)) \<longleftrightarrow> u \<in> inc) \<and>
            (u \<in> snd (cycleTag t (inc, exc)) \<longleftrightarrow> u \<in> exc)"
    by (auto simp: cycleTag_def)
  from seq step others show ?thesis by blast
qed

theorem C10_tag_cycle_disjoint_witness:
  "cycleTag ''loop'' ({}, {''dark''}) = ({''loop''}, {''dark''}) \<and>
   cycleTag ''loop'' ({''loop''}, {''dark''}) = ({}, {''loop'', ''dark''}) \<and>
   cycleTag ''loop'' ({}, {''loop'', ''dark''}) = ({}, {''dark''}) \<and>
   tagsDisjoint (foldl applyTagOp ({}, {''dark''})
      [CycleTag ''loop'', CycleTag ''loop'', RemoveTag ''dark''])"
proof -
  have d: "{} \<inter> {''dark''} = ({} :: string set)" by simp
  have seq: "tagsDisjoint (foldl applyTagOp ({}, {''dark''})
      [CycleTag ''loop'', CycleTag ''loop'', RemoveTag ''dark''])"
    using C10_tag_cycle_disjoint [OF d] by (rule conjunct1)
  have c1: "cycleTag ''loop'' ({}, {''dark''}) = ({''loop''}, {''dark''})"
    by (simp add: cycleTag_def)
  have c2: "cycleTag ''loop'' ({''loop''}, {''dark''}) = ({}, {''loop'', ''dark''})"
    by (simp add: cycleTag_def)
  have c3: "cycleTag ''loop'' ({}, {''loop'', ''dark''}) = ({}, {''dark''})"
    by (auto simp: cycleTag_def)
  from c1 c2 c3 seq show ?thesis by blast
qed

subsection \<open>Import conflicts\<close>

lemma replaceMap_lookup:
  "snd (handleConflictConfirm sel conflicts decisions) n =
     (if decisions n = Some Replace \<and> n \<noteq> ''__proto__''
      then map_of (rev (map (\<lambda>c. (name c, existing_uuid c)) conflicts)) n else None)"
  unfolding handleConflictConfirm_def Let_def snd_conv
  by (induction conflicts rule: rev_induct) (auto simp: assignKey_def)

lemma replaceMap_dom:
  "n \<in> dom (snd (handleConflictConfirm sel conflicts decisions)) \<longleftrightarrow>
     n \<in> name ` set conflicts \<and> decisions n = Some Replace \<and> n \<noteq> ''__proto__''"
proof -
  have "map_of (rev (map (\<lambda>c. (name c, existing_uuid c)) conflicts)) n \<noteq> None
          \<longleftrightarrow> n \<in> name ` set conflicts"
    by (force simp: map_of_eq_None_iff image_iff)
  then show ?thesis
    by (auto simp add: dom_def replaceMap_lookup)
qed

lemma replaceMap_Some:
  assumes "snd (handleConflictConfirm sel conflicts decisions) n = Some u"
  shows "\<exists>c \<in> set conflicts. name c = n \<and> existing_uuid c = u"
proof -
  from assms have "map_of (rev (map (\<lambda>c. (name c, existing_uuid c)) conflicts)) n = Some u"
    by (simp add: replaceMap_lookup split: if_splits)
  then have "(n, u) \<in> set (rev (map (\<lambda>c. (name c, existing_uuid c)) conflicts))"
    by (rule map_of_SomeD)
  then show ?thesis by auto
qed

lemma replaceMap_distinct:
  assumes "distinct (map name conflicts)" and "c \<in> set conflicts"
    and "decisions (name c) = Some Replace" and "name c \<noteq> ''__proto__''"
  shows "snd (handleConflictConfirm sel conflicts decisions) (name c) = Some (existing_uuid c)"
proof -
  let ?kvs = "rev (map (\<lambda>c. (name c, existing_uuid c)) conflicts)"
  have "map fst ?kvs = rev (map name conflicts)"
    by (simp add: rev_map comp_def)
  with assms(1) have "distinct (map fst ?kvs)" by simp
  moreover from assms(2) have "(name c, existing_uuid c) \<in> set ?kvs" by auto
  ultimately have "map_of ?kvs (name c) = Some (existing_uuid c)"
    by (rule map_of_is_SomeI)
  with assms(3,4) show ?thesis by (simp add: replaceMap_lookup)
qed

text \<open>
  What the code does for every list of conflicts and every decision dictionary: the
  \<^verbatim>\<open>replaceMap\<close> has a name as key exactly when the name is a conflict's name whose
  decision is \<^verbatim>\<open>"replace"\<close> and the name is not \<^verbatim>\<open>__proto__\<close>; the value is the
  \<^verbatim>\<open>existing_uuid\<close> of the conflict of that name (conflict names being distinct, as
  they key the dialog's rows).  Apart from the one name the assignment cannot store,
  the map is the one the decisions describe.
\<close>

lemma replaceMap_from_decisions:
  "(\<forall>n. n \<in> dom (snd (handleConflictConfirm sel conflicts decisions)) \<longleftrightarrow>
        n \<in> name ` set conflicts \<and> decisions n = Some Replace \<and> n \<noteq> ''__proto__'') \<and>
   (\<forall>n u. snd (handleConflictConfirm sel conflicts decisions) n = Some u \<longrightarrow>
        (\<exists>c \<in> set conflicts. name c = n \<and> existing_uuid c = u)) \<and>
   (distinct (map name conflicts) \<longrightarrow>
      (\<forall>c \<in> set conflicts. decisions (name c) = Some Replace \<and> name c \<noteq> ''__proto__'' \<longrightarrow>
          snd (handleConflictConfirm sel conflicts decisions) (name c) = Some (existing_uuid c)))"
  using replaceMap_dom [of _ sel conflicts decisions]
    replaceMap_Some [of sel conflicts decisions]
    replaceMap_distinct [of conflicts _ decisions sel]
  by blast

lemma replaceMap_demo:
  "snd (handleConflictConfirm {''/src/Drums'', ''/src/Keys'', ''/src/Fx''}
          demoConflicts demoDecisions) ''Drums'' = Some ''u-1'' \<and>
   snd (handleConflictConfirm {''/src/Drums'', ''/src/Keys'', ''/src/Fx''}
          demoConflicts demoDecisions) ''Keys'' = None \<and>
   snd (handleConflictConfirm {''/src/Drums'', ''/src/Keys'', ''/src/Fx''}
          demoConflicts demoDecisions) ''Fx'' = None"
  by (simp add: replaceMap_lookup demoDecisions_def setDecision_def initDecisions_def
      demoConflicts_def assignKey_def)

text \<open>
  C7.  The claim is that the \<^verbatim>\<open>replaceMap\<close> holds a name exactly when that conflict's
  decision is \<^verbatim>\<open>"replace"\<close>, mapped to the conflict's \<^verbatim>\<open>existing_uuid\<close>.  For the
  conflict named \<^verbatim>\<open>__proto__\<close> whose row the user has set to "replace existing", the
  decision dictionary holds \<^verbatim>\<open>"replace"\<close> under that name (the row shows the choice),
  yet the \<^verbatim>\<open>replaceMap\<close> handed to the import is empty: the pack is imported as a new
  pack.  The initial dictionary and the one of "replace all" do not hold the name either.
\<close>

theorem C7_proto_conflict_not_replaced:
  "protoDecisions ''__proto__'' = Some Replace \<and>
   snd (handleConflictConfirm {''/src/__proto__''} protoConflicts protoDecisions) ''__proto__''
     = None \<and>
   dom (snd (handleConflictConfirm {''/src/__proto__''} protoConflicts protoDecisions)) = {} \<and>
   initDecisions protoConflicts ''__proto__'' = None \<and>
   setAll protoConflicts Replace ''__proto__'' = None"
  by (simp add: handleConflictConfirm_def protoDecisions_def setDecision_def initDecisions_def
      setAll_def protoConflicts_def assignKey_def)

subsection \<open>Filters\<close>

lemma if_filter: "(if c then filter P xs else xs) = filter (\<lambda>x. c \<longrightarrow> P x) xs"
  by simp

lemma case_filter:
  "(case opt of None \<Rightarrow> xs | Some v \<Rightarrow> filter (P v) xs) = filter (\<lambda>x. \<forall>v. opt = Some v \<longrightarrow> P v x) xs"
  by (cases opt) simp_all

lemma genre_pred:
  "(case orElse a b of None \<Rightarrow> False | Some g' \<Rightarrow> g' \<in> G) \<longleftrightarrow> (\<exists>g \<in> G. orElse a b = Some g)"
  by (auto split: option.splits)

lemma key_pred:
  "(case k of None \<Rightarrow> False | Some k' \<Rightarrow> k' \<in> K) \<longleftrightarrow> (\<exists>x \<in> K. k = Some x)"
  by (auto split: option.splits)

lemma bpm_pred:
  "(case b of None \<Rightarrow> False | Some b' \<Rightarrow> b' \<ge> lo \<and> b' \<le> hi) \<longleftrightarrow>
     (\<exists>x. b = Some x \<and> lo \<le> x \<and> x \<le> (hi::int))"
  by (auto split: option.splits)

lemma tag_pred:
  "(if \<not> truthy (tags s) then False else list_ex (\<lambda>t. t \<in> T) (splitTags E (orEmpty (tags s)))) \<longleftrightarrow>
     (\<exists>t \<in> set (tagList E s). t \<in> T)"
  by (auto simp: tagList_def list_ex_iff)

lemma tag_pred_not:
  "(if \<not> truthy (tags s) then True else \<not> list_ex (\<lambda>t. t \<in> T) (splitTags E (orEmpty (tags s)))) \<longleftrightarrow>
     \<not> (\<exists>t \<in> set (tagList E s). t \<in> T)"
  by (auto simp: tagList_def list_ex_iff)

lemma applyFilters_filter:
  "applyFilters E samples G R K ty I inc exc q =
     filter (\<lambda>s.
        (2 \<le> length q \<longrightarrow> queryMatch E q s) \<and>
        (G \<noteq> {} \<longrightarrow> (\<exists>g \<in> G. orElse (genre s) (pack_genre s) = Some g)) \<and>
        (\<forall>br. R = Some br \<longrightarrow> (\<exists>b. bpm s = Some b \<and> bpm_min br \<le> b \<and> b \<le> bpm_max br)) \<and>
        (K \<noteq> {} \<longrightarrow> (\<exists>k \<in> K. formatKey E (audio_key s) (chord_type s) = Some k)) \<and>
        (ty \<noteq> ''all'' \<longrightarrow> sample_type s = Some ty) \<and>
        (I \<noteq> {} \<longrightarrow> (\<exists>t \<in> set (tagList E s). t \<in> I)) \<and>
        (inc \<noteq> {} \<longrightarrow> (\<exists>t \<in> set (tagList E s). t \<in> inc)) \<and>
        (exc \<noteq> {} \<longrightarrow> \<not> (\<exists>t \<in> set (tagList E s). t \<in> exc))) samples"
  apply (simp only: applyFilters_def Let_def if_filter case_filter filter_filter
      genre_pred key_pred bpm_pred tag_pred tag_pred_not queryMatch_def)
  done

lemma includesStr_iff: "includesStr s q \<longleftrightarrow> (\<exists>a b. s = a @ q @ b)"
proof (induction s)
  case Nil
  then show ?case by auto
next
  case (Cons c cs)
  have "startsWith (c # cs) q \<longleftrightarrow> (\<exists>b. c # cs = q @ b)"
    by (simp add: startsWith_prefix prefix_def)
  moreover have "(\<exists>a b. c # cs = a @ q @ b) \<longleftrightarrow> (\<exists>b. c # cs = q @ b) \<or> (\<exists>a b. cs = a @ q @ b)"
  proof
    assume "\<exists>a b. c # cs = a @ q @ b"
    then obtain a b where ab: "c # cs = a @ q @ b" by blast
    show "(\<exists>b. c # cs = q @ b) \<or> (\<exists>a b. cs = a @ q @ b)"
    proof (cases a)
      case Nil
      with ab show ?thesis by auto
    next
      case (Cons x a')
      with ab have "cs = a' @ q @ b" by simp
      then show ?thesis by blast
    qed
  next
    assume "(\<exists>b. c # cs = q @ b) \<or> (\<exists>a b. cs = a @ q @ b)"
    then show "\<exists>a b. c # cs = a @ q @ b"
    proof
      assume "\<exists>b. c # cs = q @ b"
      then obtain b where "c # cs = [] @ q @ b" by auto
      then show ?thesis by blast
    next
      assume "\<exists>a b. cs = a @ q @ b"
      then obtain a b where "cs = a @ q @ b" by blast
      then have "c # cs = (c # a) @ q @ b" by simp
      then show ?thesis by blast
    qed
  qed
  ultimately show ?case using Cons.IH by simp
qed

lemma applyFilters_query:
  "applyFilters E samples G R K ty I inc exc q =
     (if 2 \<le> length q then filter (queryMatch E q) (applyFilters E samples G R K ty I inc exc [])
      else applyFilters E samples G R K ty I inc exc [])"
proof (cases "2 \<le> length q")
  case True
  then show ?thesis
    unfolding applyFilters_filter filter_filter
    by (auto intro!: filter_cong)
next
  case False
  then show ?thesis
    unfolding applyFilters_filter
    by (auto intro!: filter_cong)
qed

lemma applyFilters_bpm:
  "applyFilters E samples G (Some br) K ty I inc exc q =
     filter (\<lambda>s. \<exists>b. bpm s = Some b \<and> bpm_min br \<le> b \<and> b \<le> bpm_max br)
       (applyFilters E samples G None K ty I inc exc q)"
  unfolding applyFilters_filter filter_filter
  by (rule filter_cong [OF refl]) blast

lemma applyFilters_inactive: "applyFilters E samples {} None {} ''all'' {} {} {} [] = samples"
  by (simp add: applyFilters_def)

text \<open>
  C1.  The result of \<^verbatim>\<open>applyFilters\<close> is the sample list restricted to the samples
  that pass every active category: the free text (active from two code units on), the
  genre set, the tempo range, the key set, the sample type, the instrument set, the
  included tags and the excluded tags; inside a set category one member is enough.  With
  the genres \<open>{A}\<close> and the range from 80 to 100, the three samples (A, 90), (B, 120),
  (A, 150) are filtered to the first one.
\<close>

theorem C1_filters_compose_by_and:
  "applyFilters E samples G R K ty I inc exc q =
     filter (\<lambda>s.
        (2 \<le> length q \<longrightarrow> queryMatch E q s) \<and>
        (G \<noteq> {} \<longrightarrow> (\<exists>g \<in> G. orElse (genre s) (pack_genre s) = Some g)) \<and>
        (\<forall>br. R = Some br \<longrightarrow> (\<exists>b. bpm s = Some b \<and> bpm_min br \<le> b \<and> b \<le> bpm_max br)) \<and>
        (K \<noteq> {} \<longrightarrow> (\<exists>k \<in> K. formatKey E (audio_key s) (chord_type s) = Some k)) \<and>
        (ty \<noteq> ''all'' \<longrightarrow> sample_type s = Some ty) \<and>
        (I \<noteq> {} \<longrightarrow> (\<exists>t \<in> set (tagList E s). t \<in> I)) \<and>
        (inc \<noteq> {} \<longrightarrow> (\<exists>t \<in> set (tagList E s). t \<in> inc)) \<and>
        (exc \<noteq> {} \<longrightarrow> \<not> (\<exists>t \<in> set (tagList E s). t \<in> exc))) samples \<and>
   applyFilters E
       [genreBpmSample 1 ''A'' 90, genreBpmSample 2 ''B'' 120, genreBpmSample 3 ''A'' 150]
       {''A''} (Some \<lparr>bpm_min = 80, bpm_max = 100\<rparr>) {} ''all'' {} {} {} [] =
     [genreBpmSample 1 ''A'' 90]"
proof
  show "applyFilters E samples G R K ty I inc exc q =
     filter (\<lambda>s.
        (2 \<le> length q \<longrightarrow> queryMatch E q s) \<and>
        (G \<noteq> {} \<longrightarrow> (\<exists>g \<in> G. orElse (genre s) (pack_genre s) = Some g)) \<and>
        (\<forall>br. R = Some br \<longrightarrow> (\<exists>b. bpm s = Some b \<and> bpm_min br \<le> b \<and> b \<le> bpm_max br)) \<and>
        (K \<noteq> {} \<longrightarrow> (\<exists>k \<in> K. formatKey E (audio_key s) (chord_type s) = Some k)) \<and>
        (ty \<noteq> ''all'' \<longrightarrow> sample_type s = Some ty) \<and>
        (I \<noteq> {} \<longrightarrow> (\<exists>t \<in> set (tagList E s). t \<in> I)) \<and>
        (inc \<noteq> {} \<longrightarrow> (\<exists>t \<in> set (tagList E s). t \<in> inc)) \<and>
        (exc \<noteq> {} \<longrightarrow> \<not> (\<exists>t \<in> set (tagList E s). t \<in> exc))) samples"
    by (rule applyFilters_filter)
next
  show "applyFilters E
       [genreBpmSample 1 ''A'' 90, genreBpmSample 2 ''B'' 120, genreBpmSample 3 ''A'' 150]
       {''A''} (Some \<lparr>bpm_min = 80, bpm_max = 100\<rparr>) {} ''all'' {} {} {} [] =
     [genreBpmSample 1 ''A'' 90]"
    by (simp add: applyFilters_def genreBpmSample_def orElse_def truthy_def)
qed

theorem C1_filters_compose_by_and_witness:
  "applyFilters asciiBuiltins
       [genreBpmSample 1 ''A'' 90, genreBpmSample 2 ''B'' 120, genreBpmSample 3 ''A'' 150]
       {''A''} (Some \<lparr>bpm_min = 80, bpm_max = 100\<rparr>) {} ''all'' {} {} {} [] =
     [genreBpmSample 1 ''A'' 90]"
proof -
  let ?xs = "[genreBpmSample 1 ''A'' 90, genreBpmSample 2 ''B'' 120, genreBpmSample 3 ''A'' 150]"
  from C1_filters_compose_by_and
    [of asciiBuiltins ?xs "{''A''}" "Some \<lparr>bpm_min = 80, bpm_max = 100\<rparr>" "{}" "''all''"
        "{}" "{}" "{}" "[]"]
  have "applyFilters asciiBuiltins ?xs {''A''} (Some \<lparr>bpm_min = 80, bpm_max = 100\<rparr>)
          {} ''all'' {} {} {} [] =
        filter (\<lambda>s. orElse (genre s) (pack_genre s) = Some ''A'' \<and>
                     (\<exists>b. bpm s = Some b \<and> 80 \<le> b \<and> b \<le> 100)) ?xs"
    by simp
  also have "\<dots> = [genreBpmSample 1 ''A'' 90]"
    by (simp add: genreBpmSample_def orElse_def truthy_def)
  finally show ?thesis .
qed

text \<open>
  C4.  The free-text filter runs only for a query of at least two code units; it keeps a
  sample exactly when the lower-cased query occurs in the lower-cased file name, in the
  lower-cased pack name or in the lower-cased raw tags string (an absent pack name or
  tags string counting as empty); a shorter query filters nothing, whatever the other
  categories are.
\<close>

theorem C4_free_text_filter:
  "applyFilters E samples G R K ty I inc exc q =
     (if 2 \<le> length q
      then filter (\<lambda>s.
             includesStr (toLowerCase E (filename s)) (toLowerCase E q) \<or>
             includesStr (toLowerCase E (orEmpty (pack_name s))) (toLowerCase E q) \<or>
             includesStr (toLowerCase E (orEmpty (tags s))) (toLowerCase E q))
           (applyFilters E samples G R K ty I inc exc [])
      else applyFilters E samples G R K ty I inc exc []) \<and>
   applyFilters E samples {} None {} ''all'' {} {} {} q =
     (if 2 \<le> length q
      then filter (\<lambda>s.
             includesStr (toLowerCase E (filename s)) (toLowerCase E q) \<or>
             includesStr (toLowerCase E (orEmpty (pack_name s))) (toLowerCase E q) \<or>
             includesStr (toLowerCase E (orEmpty (tags s))) (toLowerCase E q)) samples
      else samples) \<and>
   (includesStr x y \<longleftrightarrow> (\<exists>a b. x = a @ y @ b))"
proof -
  have qm: "queryMatch E q = (\<lambda>s.
             includesStr (toLowerCase E (filename s)) (toLowerCase E q) \<or>
             includesStr (toLowerCase E (orEmpty (pack_name s))) (toLowerCase E q) \<or>
             includesStr (toLowerCase E (orEmpty (tags s))) (toLowerCase E q))"
    by (rule ext) (simp add: queryMatch_def)
  have a: "applyFilters E samples G R K ty I inc exc q =
     (if 2 \<le> length q then filter (queryMatch E q) (applyFilters E samples G R K ty I inc exc [])
      else applyFilters E samples G R K ty I inc exc [])"
    by (rule applyFilters_query)
  have b: "applyFilters E samples {} None {} ''all'' {} {} {} q =
     (if 2 \<le> length q then filter (queryMatch E q) samples else samples)"
    using applyFilters_query [of E samples "{}" None "{}" "''all''" "{}" "{}" "{}" q]
    by (simp only: applyFilters_inactive)
  from a b includesStr_iff [of x y] show ?thesis
    unfolding qm by blast
qed

theorem C4_free_text_filter_witness:
  "applyFilters asciiBuiltins
     [namedSample 1 ''Kick 01.wav'' None None,
      namedSample 2 ''Snare.wav'' (Some ''Drums'') (Some ''snare, tight''),
      namedSample 3 ''Loop.wav'' (Some ''Drums'') (Some ''loop, Kick'')]
     {} None {} ''all'' {} {} {} ''KI'' =
     [namedSample 1 ''Kick 01.wav'' None None,
      namedSample 3 ''Loop.wav'' (Some ''Drums'') (Some ''loop, Kick'')] \<and>
   applyFilters asciiBuiltins
     [namedSample 1 ''Kick 01.wav'' None None,
      namedSample 2 ''Snare.wav'' (Some ''Drums'') (Some ''snare, tight'')]
     {} None {} ''all'' {} {} {} ''K'' =
     [namedSample 1 ''Kick 01.wav'' None None,
      namedSample 2 ''Snare.wav'' (Some ''Drums'') (Some ''snare, tight'')]"
proof -
  let ?s1 = "namedSample 1 ''Kick 01.wav'' None None"
  let ?s2 = "namedSample 2 ''Snare.wav'' (Some ''Drums'') (Some ''snare, tight'')"
  let ?s3 = "namedSample 3 ''Loop.wav'' (Some ''Drums'') (Some ''loop, Kick'')"
  have m1: "queryMatch asciiBuiltins ''KI'' ?s1" by code_simp
  have m2: "\<not> queryMatch asciiBuiltins ''KI'' ?s2" by code_simp
  have m3: "queryMatch asciiBuiltins ''KI'' ?s3" by code_simp
  have qm: "queryMatch asciiBuiltins ''KI'' = (\<lambda>s.
       includesStr (toLowerCase asciiBuiltins (filename s)) (toLowerCase asciiBuiltins ''KI'') \<or>
       includesStr (toLowerCase asciiBuiltins (orEmpty (pack_name s))) (toLowerCase asciiBuiltins ''KI'') \<or>
       includesStr (toLowerCase asciiBuiltins (orEmpty (tags s))) (toLowerCase asciiBuiltins ''KI''))"
    by (rule ext) (simp add: queryMatch_def)
  have len2: "(2::nat) \<le> length ''KI''" and len1: "\<not> (2::nat) \<le> length ''K''"
    by simp_all
  from C4_free_text_filter [of asciiBuiltins "[?s1, ?s2, ?s3]" "{}" None "{}" "''all''"
        "{}" "{}" "{}" "''KI''" "[]" "[]"]
  have "applyFilters asciiBuiltins [?s1, ?s2, ?s3] {} None {} ''all'' {} {} {} ''KI'' =
      (if (2::nat) \<le> length ''KI''
       then filter (queryMatch asciiBuiltins ''KI'') [?s1, ?s2, ?s3] else [?s1, ?s2, ?s3])"
    unfolding qm by blast
  with len2 have long:
    "applyFilters asciiBuiltins [?s1, ?s2, ?s3] {} None {} ''all'' {} {} {} ''KI'' =
      filter (queryMatch asciiBuiltins ''KI'') [?s1, ?s2, ?s3]"
    by (simp only: if_True)
  from C4_free_text_filter [of asciiBuiltins "[?s1, ?s2]" "{}" None "{}" "''all''"
        "{}" "{}" "{}" "''K''" "[]" "[]"]
  have "applyFilters asciiBuiltins [?s1, ?s2] {} None {} ''all'' {} {} {} ''K'' =
      (if (2::nat) \<le> length ''K''
       then filter (\<lambda>s.
         includesStr (toLowerCase asciiBuiltins (filename s)) (toLowerCase asciiBuiltins ''K'') \<or>
         includesStr (toLowerCase asciiBuiltins (orEmpty (pack_name s))) (toLowerCase asciiBuiltins ''K'') \<or>
         includesStr (toLowerCase asciiBuiltins (orEmpty (tags s))) (toLowerCase asciiBuiltins ''K''))
         [?s1, ?s2]
       else [?s1, ?s2])"
    by blast
  with len1 have short:
    "applyFilters asciiBuiltins [?s1, ?s2] {} None {} ''all'' {} {} {} ''K'' = [?s1, ?s2]"
    by (simp only: if_False)
  from long m1 m2 m3 short show ?thesis by simp
qed

text \<open>
  C5.  With a tempo range the result is the result without the range, restricted to the
  samples whose tempo is present and lies between the two bounds, both included; so a
  sample without tempo never passes an active range; with no range and no other category
  active the list is returned as it is.
\<close>

theorem C5_bpm_range_inclusive:
  "applyFilters E samples G (Some br) K ty I inc exc q =
     filter (\<lambda>s. \<exists>b. bpm s = Some b \<and> bpm_min br \<le> b \<and> b \<le> bpm_max br)
       (applyFilters E samples G None K ty I inc exc q) \<and>
   applyFilters E samples {} (Some br) {} ''all'' {} {} {} [] =
     filter (\<lambda>s. \<exists>b. bpm s = Some b \<and> bpm_min br \<le> b \<and> b \<le> bpm_max br) samples \<and>
   applyFilters E samples {} None {} ''all'' {} {} {} [] = samples \<and>
   (\<forall>s \<in> set (applyFilters E samples G (Some br) K ty I inc exc q). bpm s \<noteq> None)"
proof -
  have a: "applyFilters E samples G (Some br) K ty I inc exc q =
     filter (\<lambda>s. \<exists>b. bpm s = Some b \<and> bpm_min br \<le> b \<and> b \<le> bpm_max br)
       (applyFilters E samples G None K ty I inc exc q)"
    by (rule applyFilters_bpm)
  have b: "applyFilters E samples {} (Some br) {} ''all'' {} {} {} [] =
     filter (\<lambda>s. \<exists>b. bpm s = Some b \<and> bpm_min br \<le> b \<and> b \<le> bpm_max br) samples"
    by (simp only: applyFilters_bpm applyFilters_inactive)
  have c: "\<forall>s \<in> set (applyFilters E samples G (Some br) K ty I inc exc q). bpm s \<noteq> None"
    unfolding a by auto
  from a b c applyFilters_inactive [of E samples] show ?thesis by blast
qed

theorem C5_bpm_range_inclusive_witness:
  "applyFilters asciiBuiltins
     [genreBpmSample 1 ''A'' 80, genreBpmSample 2 ''A'' 100, genreBpmSample 3 ''A'' 101,
      namedSample 4 ''Pad.wav'' None None, genreBpmSample 5 ''A'' 79]
     {} (Some \<lparr>bpm_min = 80, bpm_max = 100\<rparr>) {} ''all'' {} {} {} [] =
     [genreBpmSample 1 ''A'' 80, genreBpmSample 2 ''A'' 100]"
proof -
  let ?xs = "[genreBpmSample 1 ''A'' 80, genreBpmSample 2 ''A'' 100, genreBpmSample 3 ''A'' 101,
      namedSample 4 ''Pad.wav'' None None, genreBpmSample 5 ''A'' 79]"
  from C5_bpm_range_inclusive
    [of asciiBuiltins ?xs "{}" "\<lparr>bpm_min = 80, bpm_max = 100\<rparr>" "{}" "''all''" "{}" "{}" "{}" "[]"]
  have "applyFilters asciiBuiltins ?xs {} (Some \<lparr>bpm_min = 80, bpm_max = 100\<rparr>)
          {} ''all'' {} {} {} [] =
        filter (\<lambda>s. \<exists>b. bpm s = Some b \<and> 80 \<le> b \<and> b \<le> 100) ?xs"
    by simp
  also have "\<dots> = [genreBpmSample 1 ''A'' 80, genreBpmSample 2 ''A'' 100]"
    by (simp add: genreBpmSample_def namedSample_def)
  finally show ?thesis .
qed

subsection \<open>Sorting\<close>

lemma mset_insertBy: "mset (insertBy cmp x ys) = add_mset x (mset ys)"
  by (induction ys) simp_all

lemma set_insertBy: "set (insertBy cmp x ys) = insert x (set ys)"
  by (induction ys) auto

lemma arraySort_snoc: "arraySort cmp (xs @ [x]) = insertBy cmp x (arraySort cmp xs)"
  by (simp add: arraySort_def)

lemma mset_arraySort: "mset (arraySort cmp xs) = mset xs"
proof (induction xs rule: rev_induct)
  case Nil
  show ?case by (simp add: arraySort_def)
next
  case (snoc x xs)
  then show ?case by (simp add: arraySort_snoc mset_insertBy)
qed

lemma set_arraySort: "set (arraySort cmp xs) = set xs"
  using mset_arraySort [of cmp xs] by (metis set_mset_mset)

text \<open>An element that is less than none of a list is placed after it.\<close>

lemma insertBy_last:
  "(\<And>y. y \<in> set ys \<Longrightarrow> \<not> cmp x y < 0) \<Longrightarrow> insertBy cmp x ys = ys @ [x]"
  by (induction ys) simp_all

text \<open>
  An element that is less than every element of the second part of a list is placed
  within the first part.
\<close>

lemma insertBy_first:
  "(\<And>z. z \<in> set zs \<Longrightarrow> cmp x z < 0) \<Longrightarrow> insertBy cmp x (ys @ zs) = insertBy cmp x ys @ zs"
proof (induction ys)
  case Nil
  then show ?case by (cases zs) simp_all
next
  case (Cons y ys)
  then show ?case by simp
qed

text \<open>
  A comparator that never finds an element without value less than another, and always
  finds an element with a value less than one without: the sort puts the elements with
  a value, sorted among themselves, in front, followed by the elements without value
  in input order.
\<close>

lemma arraySort_split:
  assumes none_not_less: "\<And>a b. f a = None \<Longrightarrow> \<not> cmp a b < 0"
    and some_less: "\<And>a b. f a \<noteq> None \<Longrightarrow> f b = None \<Longrightarrow> cmp a b < 0"
  shows "arraySort cmp xs =
           arraySort cmp (filter (\<lambda>s. f s \<noteq> None) xs) @ filter (\<lambda>s. f s = None) xs"
proof (induction xs rule: rev_induct)
  case Nil
  show ?case by (simp add: arraySort_def)
next
  case (snoc x xs)
  let ?A = "arraySort cmp (filter (\<lambda>s. f s \<noteq> None) xs)"
  let ?N = "filter (\<lambda>s. f s = None) xs"
  have "arraySort cmp (xs @ [x]) = insertBy cmp x (arraySort cmp xs)"
    by (rule arraySort_snoc)
  also have "arraySort cmp xs = ?A @ ?N"
    by (rule snoc.IH)
  finally have step: "arraySort cmp (xs @ [x]) = insertBy cmp x (?A @ ?N)" .
  show ?case
  proof (cases "f x = None")
    case True
    then have "insertBy cmp x (?A @ ?N) = (?A @ ?N) @ [x]"
      by (intro insertBy_last none_not_less)
    with True show ?thesis unfolding step by simp
  next
    case False
    have "insertBy cmp x (?A @ ?N) = insertBy cmp x ?A @ ?N"
    proof (rule insertBy_first)
      fix z assume "z \<in> set ?N"
      then have "f z = None" by simp
      with False show "cmp x z < 0" by (intro some_less)
    qed
    with False show ?thesis unfolding step by (simp add: arraySort_snoc)
  qed
qed

lemma nullsLast_append:
  assumes "\<And>a. a \<in> set as \<Longrightarrow> f a \<noteq> None" and "\<And>b. b \<in> set bs \<Longrightarrow> f b = None"
  shows "nullsLast f (as @ bs)"
  unfolding nullsLast_def
proof (intro allI impI)
  fix i j
  assume a: "i < j \<and> j < length (as @ bs) \<and> f ((as @ bs) ! i) = None"
  have "\<not> i < length as"
  proof
    assume "i < length as"
    then have "(as @ bs) ! i \<in> set as" by (simp add: nth_append)
    with assms(1) a show False by blast
  qed
  with a have "\<not> j < length as" and "j - length as < length bs" by auto
  then have "(as @ bs) ! j \<in> set bs" by (simp add: nth_append)
  with assms(2) show "f ((as @ bs) ! j) = None" by blast
qed

lemma arraySort_nullsLast:
  assumes "\<And>a b. f a = None \<Longrightarrow> \<not> cmp a b < 0"
    and "\<And>a b. f a \<noteq> None \<Longrightarrow> f b = None \<Longrightarrow> cmp a b < 0"
  shows "nullsLast f (arraySort cmp xs)"
proof -
  have "nullsLast f (arraySort cmp (filter (\<lambda>s. f s \<noteq> None) xs) @ filter (\<lambda>s. f s = None) xs)"
    by (rule nullsLast_append) (simp_all add: set_arraySort)
  moreover have "arraySort cmp xs =
           arraySort cmp (filter (\<lambda>s. f s \<noteq> None) xs) @ filter (\<lambda>s. f s = None) xs"
    using assms by (rule arraySort_split)
  ultimately show ?thesis by (simp only:)
qed

text \<open>
  When the test is asymmetric and transitive, the result is in order: no element is less
  than an element before it.
\<close>

lemma sorted_insertBy:
  assumes asym: "\<And>a b. cmp a b < 0 \<Longrightarrow> \<not> cmp b a < 0"
    and trans: "\<And>a b c. cmp a b < 0 \<Longrightarrow> cmp b c < 0 \<Longrightarrow> cmp a c < 0"
    and "sorted_wrt (\<lambda>a b. \<not> cmp b a < 0) ys"
  shows "sorted_wrt (\<lambda>a b. \<not> cmp b a < 0) (insertBy cmp x ys)"
  using assms(3)
proof (induction ys)
  case Nil
  then show ?case by simp
next
  case (Cons y ys)
  show ?case
  proof (cases "cmp x y < 0")
    case True
    have "\<not> cmp z x < 0" if "z \<in> set ys" for z
    proof
      assume "cmp z x < 0"
      then have "cmp z y < 0" using True by (rule trans)
      with Cons.prems that show False by simp
    qed
    with True Cons.prems asym [OF True] show ?thesis by simp
  next
    case False
    with Cons show ?thesis by (auto simp: set_insertBy)
  qed
qed

lemma sorted_arraySort:
  assumes "\<And>a b. cmp a b < 0 \<Longrightarrow> \<not> cmp b a < 0"
    and "\<And>a b c. cmp a b < 0 \<Longrightarrow> cmp b c < 0 \<Longrightarrow> cmp a c < 0"
  shows "sorted_wrt (\<lambda>a b. \<not> cmp b a < 0) (arraySort cmp xs)"
proof (induction xs rule: rev_induct)
  case Nil
  show ?case by (simp add: arraySort_def)
next
  case (snoc x xs)
  show ?case
    unfolding arraySort_snoc
    by (rule sorted_insertBy [where cmp = cmp, OF assms snoc.IH])
qed

lemma compareBpm_none: "bpm a = None \<Longrightarrow> \<not> compareBpm dir a b < 0"
  by (simp add: compareBpm_def)

lemma compareBpm_some: "bpm a \<noteq> None \<Longrightarrow> bpm b = None \<Longrightarrow> compareBpm dir a b < 0"
  by (auto simp: compareBpm_def)

lemma compareDuration_none: "duration a = None \<Longrightarrow> \<not> compareDuration dir a b < 0"
  by (simp add: compareDuration_def)

lemma compareDuration_some:
  "duration a \<noteq> None \<Longrightarrow> duration b = None \<Longrightarrow> compareDuration dir a b < 0"
  by (auto simp: compareDuration_def)

lemma sortSamples_bpm:
  "sortSamples E draw samples ''bpm'' sortDir =
     arraySort (compareBpm (if sortDir = ''desc'' then - 1 else 1)) samples"
  by (simp add: sortSamples_def Let_def)

lemma sortSamples_duration:
  "sortSamples E draw samples ''duration'' sortDir =
     arraySort (compareDuration (if sortDir = ''desc'' then - 1 else 1)) samples"
  by (simp add: sortSamples_def Let_def)

lemma compareBpm_asym: "compareBpm dir a b < 0 \<Longrightarrow> \<not> compareBpm dir b a < 0"
  by (auto simp: compareBpm_def algebra_simps split: option.splits)

lemma compareBpm_trans:
  "compareBpm dir a b < 0 \<Longrightarrow> compareBpm dir b c < 0 \<Longrightarrow> compareBpm dir a c < 0"
  by (auto simp: compareBpm_def algebra_simps split: option.splits)

lemma compareDuration_asym:
  "compareDuration dir a b < 0 \<Longrightarrow> \<not> compareDuration dir b a < 0"
  by (auto simp: compareDuration_def algebra_simps split: option.splits)

lemma compareDuration_trans:
  "compareDuration dir a b < 0 \<Longrightarrow> compareDuration dir b c < 0 \<Longrightarrow>
     compareDuration dir a c < 0"
  by (auto simp: compareDuration_def algebra_simps split: option.splits)

text \<open>
  Sorted by \<^verbatim>\<open>bpm\<close> or by \<^verbatim>\<open>duration\<close>, the list is in the order of the comparator:
  no sample is less than a sample before it.
\<close>

lemma sortSamples_in_order:
  "sorted_wrt (\<lambda>a b. \<not> compareBpm (if sortDir = ''desc'' then - 1 else 1) b a < 0)
     (sortSamples E draw samples ''bpm'' sortDir) \<and>
   sorted_wrt (\<lambda>a b. \<not> compareDuration (if sortDir = ''desc'' then - 1 else 1) b a < 0)
     (sortSamples E draw samples ''duration'' sortDir)"
  unfolding sortSamples_bpm sortSamples_duration
  by (intro conjI sorted_arraySort)
     (erule compareBpm_asym compareBpm_trans compareDuration_asym compareDuration_trans;
      assumption)+

text \<open>
  C3.  Sorted by \<^verbatim>\<open>bpm\<close>, whatever the direction, every sample without tempo comes
  after all samples with a tempo; sorted by \<^verbatim>\<open>duration\<close>, whatever the direction,
  every sample without duration comes after all samples with a duration.  The result
  holds the same samples as the input; it is the sorted list of the samples with a value
  followed by the samples without value in the order of the input.
\<close>

theorem C3_nulls_sort_last:
  "nullsLast bpm (sortSamples E draw samples ''bpm'' sortDir) \<and>
   mset (sortSamples E draw samples ''bpm'' sortDir) = mset samples \<and>
   sortSamples E draw samples ''bpm'' sortDir =
     sortSamples E draw (filter (\<lambda>s. bpm s \<noteq> None) samples) ''bpm'' sortDir @
     filter (\<lambda>s. bpm s = None) samples \<and>
   nullsLast duration (sortSamples E draw samples ''duration'' sortDir) \<and>
   mset (sortSamples E draw samples ''duration'' sortDir) = mset samples \<and>
   sortSamples E draw samples ''duration'' sortDir =
     sortSamples E draw (filter (\<lambda>s. duration s \<noteq> None) samples) ''duration'' sortDir @
     filter (\<lambda>s. duration s = None) samples"
proof -
  let ?dir = "if sortDir = ''desc'' then - 1 else 1 :: int"
  have b1: "nullsLast bpm (sortSamples E draw samples ''bpm'' sortDir)"
    unfolding sortSamples_bpm
    by (rule arraySort_nullsLast) (simp_all add: compareBpm_none compareBpm_some)
  have b2: "mset (sortSamples E draw samples ''bpm'' sortDir) = mset samples"
    unfolding sortSamples_bpm by (rule mset_arraySort)
  have b3: "sortSamples E draw samples ''bpm'' sortDir =
      sortSamples E draw (filter (\<lambda>s. bpm s \<noteq> None) samples) ''bpm'' sortDir @
      filter (\<lambda>s. bpm s = None) samples"
    unfolding sortSamples_bpm
    by (rule arraySort_split) (simp_all add: compareBpm_none compareBpm_some)
  have d1: "nullsLast duration (sortSamples E draw samples ''duration'' sortDir)"
    unfolding sortSamples_duration
    by (rule arraySort_nullsLast) (simp_all add: compareDuration_none compareDuration_some)
  have d2: "mset (sortSamples E draw samples ''duration'' sortDir) = mset samples"
    unfolding sortSamples_duration by (rule mset_arraySort)
  have d3: "sortSamples E draw samples ''duration'' sortDir =
      sortSamples E draw (filter (\<lambda>s. duration s \<noteq> None) samples) ''duration'' sortDir @
      filter (\<lambda>s. duration s = None) samples"
    unfolding sortSamples_duration
    by (rule arraySort_split) (simp_all add: compareDuration_none compareDuration_some)
  from b1 b2 b3 d1 d2 d3 show ?thesis by (intro conjI)
qed

theorem C3_nulls_sort_last_witness:
  "nullsLast bpm (sortSamples asciiBuiltins (\<lambda>i. 0) tempoMix ''bpm'' ''asc'') \<and>
   map sample_id (sortSamples asciiBuiltins (\<lambda>i. 0) tempoMix ''bpm'' ''asc'') = [3, 2, 1, 4] \<and>
   nullsLast bpm (sortSamples asciiBuiltins (\<lambda>i. 0) tempoMix ''bpm'' ''desc'') \<and>
   map sample_id (sortSamples asciiBuiltins (\<lambda>i. 0) tempoMix ''bpm'' ''desc'') = [2, 3, 1, 4] \<and>
   nullsLast duration (sortSamples asciiBuiltins (\<lambda>i. 0) tempoMix ''duration'' ''asc'') \<and>
   map sample_id (sortSamples asciiBuiltins (\<lambda>i. 0) tempoMix ''duration'' ''asc'')
     = [2, 4, 1, 3] \<and>
   nullsLast duration (sortSamples asciiBuiltins (\<lambda>i. 0) tempoMix ''duration'' ''desc'') \<and>
   map sample_id (sortSamples asciiBuiltins (\<lambda>i. 0) tempoMix ''duration'' ''desc'')
     = [4, 2, 1, 3] \<and>
   map sample_id (sortSamples asciiBuiltins (\<lambda>i. 0)
      [timedSample 1 None None, timedSample 4 None None, timedSample 2 (Some 120) None]
      ''bpm'' ''asc'') = [2, 1, 4]"
proof -
  have asc: "map sample_id (sortSamples asciiBuiltins (\<lambda>i. 0) tempoMix ''bpm'' ''asc'')
      = [3, 2, 1, 4]"
    by (simp add: sortSamples_def arraySort_def tempoMix_def timedSample_def compareBpm_def)
  have desc: "map sample_id (sortSamples asciiBuiltins (\<lambda>i. 0) tempoMix ''bpm'' ''desc'')
      = [2, 3, 1, 4]"
    by (simp add: sortSamples_def arraySort_def tempoMix_def timedSample_def compareBpm_def)
  have dasc: "map sample_id (sortSamples asciiBuiltins (\<lambda>i. 0) tempoMix ''duration'' ''asc'')
      = [2, 4, 1, 3]"
    by (simp add: sortSamples_def arraySort_def tempoMix_def timedSample_def compareDuration_def)
  have ddesc: "map sample_id (sortSamples asciiBuiltins (\<lambda>i. 0) tempoMix ''duration'' ''desc'')
      = [4, 2, 1, 3]"
    by (simp add: sortSamples_def arraySort_def tempoMix_def timedSample_def compareDuration_def)
  have three: "map sample_id (sortSamples asciiBuiltins (\<lambda>i. 0)
      [timedSample 1 None None, timedSample 4 None None, timedSample 2 (Some 120) None]
      ''bpm'' ''asc'') = [2, 1, 4]"
    by (simp add: sortSamples_def arraySort_def timedSample_def compareBpm_def)
  from C3_nulls_sort_last [of asciiBuiltins "\<lambda>i. 0" tempoMix "''asc''"]
  have a: "nullsLast bpm (sortSamples asciiBuiltins (\<lambda>i. 0) tempoMix ''bpm'' ''asc'')"
    and b: "nullsLast duration (sortSamples asciiBuiltins (\<lambda>i. 0) tempoMix ''duration'' ''asc'')"
    by blast+
  from C3_nulls_sort_last [of asciiBuiltins "\<lambda>i. 0" tempoMix "''desc''"]
  have c: "nullsLast bpm (sortSamples asciiBuiltins (\<lambda>i. 0) tempoMix ''bpm'' ''desc'')"
    and d: "nullsLast duration (sortSamples asciiBuiltins (\<lambda>i. 0) tempoMix ''duration'' ''desc'')"
    by blast+
  from a b c d asc desc dasc ddesc three show ?thesis by blast
qed

subsection \<open>Waveform downsampling\<close>

declare log2floor.simps [simp del]

lemma log2floor_small: "n < 2 \<Longrightarrow> log2floor n = 0"
  by (simp add: log2floor.simps)

lemma log2floor_step: "2 \<le> n \<Longrightarrow> log2floor n = Suc (log2floor (n div 2))"
  by (subst log2floor.simps) simp

lemmas float_eval =
  fdiv_def fmul_def round64_def exponent_def pow2_def roundHalfEven_def Let_def
  log2floor_small log2floor_step

lemma Max_insert_absorb:
  fixes m :: real
  assumes "finite S"
  shows "Max (insert m (insert y S)) = (if m < y then Max (insert y S) else Max (insert m S))"
proof (cases "m < y")
  case True
  have "Max (insert m (insert y S)) = max m (Max (insert y S))"
    using assms by (intro Max_insert) auto
  moreover have "y \<le> Max (insert y S)"
    using assms by (intro Max_ge) auto
  ultimately show ?thesis using True by simp
next
  case False
  have "Max (insert y (insert m S)) = max y (Max (insert m S))"
    using assms by (intro Max_insert) auto
  moreover have "m \<le> Max (insert m S)"
    using assms by (intro Max_ge) auto
  ultimately show ?thesis using False by (simp add: insert_commute)
qed

lemma fold_window:
  fixes p :: "real list"
  shows "fold (\<lambda>j mx. if j < length p \<and> mx < p ! j then p ! j else mx) js m =
     Max (insert m ((\<lambda>j. p ! j) ` {j \<in> set js. j < length p}))"
proof (induction js arbitrary: m)
  case Nil
  then show ?case by simp
next
  case (Cons a js)
  let ?S = "(\<lambda>j. p ! j) ` {j \<in> set js. j < length p}"
  have fin: "finite ?S" by simp
  show ?case
  proof (cases "a < length p")
    case True
    then have "{j \<in> set (a # js). j < length p} = insert a {j \<in> set js. j < length p}"
      by auto
    then have "(\<lambda>j. p ! j) ` {j \<in> set (a # js). j < length p} = insert (p ! a) ?S"
      by simp
    with True Cons.IH Max_insert_absorb [OF fin, of m "p ! a"] show ?thesis
      by simp
  next
    case False
    then have "{j \<in> set (a # js). j < length p} = {j \<in> set js. j < length p}"
      by auto
    with False Cons.IH show ?thesis by simp
  qed
qed

lemma windowMax_Max:
  "windowMax p s e = Max (insert 0 ((\<lambda>j. p ! j) ` {j. s \<le> j \<and> j < e \<and> j < length p}))"
proof -
  have "{j \<in> set [s..<e]. j < length p} = {j. s \<le> j \<and> j < e \<and> j < length p}"
    by auto
  then show ?thesis
    unfolding windowMax_def fold_window by simp
qed

lemma windowMax_cases:
  "windowMax p s e = 0 \<or> (\<exists>j < length p. windowMax p s e = p ! j)"
proof -
  let ?W = "insert 0 ((\<lambda>j. p ! j) ` {j. s \<le> j \<and> j < e \<and> j < length p})"
  have "finite ?W" by simp
  then have "Max ?W \<in> ?W" by (intro Max_in) auto
  then show ?thesis
    unfolding windowMax_Max by auto
qed

lemma windowMax_bounds:
  assumes "\<forall>x \<in> set p. 0 \<le> x \<and> x \<le> 1" and "p \<noteq> []"
  shows "0 \<le> windowMax p s e \<and> windowMax p s e \<le> 1 \<and> windowMax p s e \<le> Max (set p)"
proof -
  from assms(2) obtain x where x: "x \<in> set p" by (cases p) auto
  with assms(1) have "0 \<le> x" by blast
  also have "x \<le> Max (set p)" using x by (intro Max_ge) auto
  finally have zero: "0 \<le> Max (set p)" .
  from windowMax_cases [of p s e] show ?thesis
  proof
    assume "windowMax p s e = 0"
    with zero show ?thesis by simp
  next
    assume "\<exists>j < length p. windowMax p s e = p ! j"
    then obtain j where j: "j < length p" "windowMax p s e = p ! j" by blast
    then have mem: "p ! j \<in> set p" by simp
    with assms(1) have "0 \<le> p ! j \<and> p ! j \<le> 1" by blast
    moreover from mem have "p ! j \<le> Max (set p)" by (intro Max_ge) auto
    ultimately show ?thesis using j by simp
  qed
qed

lemma windowStart_0: "windowStart len target 0 = 0"
  by (simp add: windowStart_def fmul_def round64_def)

lemma windowEnd_next: "windowEnd len target i = windowStart len target (Suc i)"
  by (simp add: windowEnd_def windowStart_def)

lemma downsample_short: "length p \<le> t \<Longrightarrow> downsample p t = p"
  by (simp add: downsample_def)

lemma downsample_long:
  assumes "t < length p"
  shows "length (downsample p t) = t"
    and "i < t \<Longrightarrow> downsample p t ! i =
           windowMax p (windowStart (length p) t i) (windowEnd (length p) t i)"
  using assms by (simp_all add: downsample_def)

text \<open>
  C8, as stated, fails on the code: the window bounds are floors of binary64 products,
  not of exact quotients.  For fifteen peaks and eleven bars the ratio \<open>15/11\<close> is
  rounded down, eleven times the rounded ratio is rounded to the double just below 15,
  and the last window ends at index 14 instead of 15: the only non-zero peak, at index
  14, belongs to the exact window \<open>[13, 15)\<close> of bar 10 but to no window of the code.
\<close>

theorem C8_exact_window_counterexample:
  "set lastPeakOnly = {0, 1} \<and> length lastPeakOnly = 15 \<and>
   windowStart 15 11 10 = 13 \<and> windowEnd 15 11 10 = 14 \<and>
   downsample lastPeakOnly 11 ! 10 = 0 \<and>
   exactWindowMax lastPeakOnly 11 10 = 1"
proof -
  have r: "fdiv 15 11 = 6141272219141585 / 4503599627370496"
    by (simp add: float_eval)
  have ws: "windowStart 15 11 10 = 13"
    by (simp add: windowStart_def r) (simp add: float_eval)
  have we: "windowEnd 15 11 10 = 14"
    by (simp add: windowEnd_def r) (simp add: float_eval)
  have wm: "windowMax lastPeakOnly 13 14 = 0"
    by (simp add: windowMax_def lastPeakOnly_def nth_append)
  have len: "length lastPeakOnly = 15"
    by (simp add: lastPeakOnly_def)
  have elems: "set lastPeakOnly = {0, 1}"
    by (auto simp: lastPeakOnly_def)
  from len have "downsample lastPeakOnly 11 ! 10 =
      windowMax lastPeakOnly (windowStart 15 11 10) (windowEnd 15 11 10)"
    by (simp add: downsample_def)
  then have ds: "downsample lastPeakOnly 11 ! 10 = 0"
    by (simp only: ws we wm)
  have "{(10 * 15) div 11 ..< (11 * 15) div 11} = {13, 14::nat}"
    by auto
  then have ex: "exactWindowMax lastPeakOnly 11 10 = 1"
    by (simp add: exactWindowMax_def lastPeakOnly_def nth_append)
  from elems len ws we ds ex show ?thesis by blast
qed

text \<open>
  C8, amended.  For peaks in \<open>[0, 1]\<close> and a target of at least 1: a list no longer
  than the target is returned unchanged; a longer one is reduced to exactly \<open>target\<close>
  values, the \<open>i\<close>-th being the largest peak with an index in the window from
  \<^verbatim>\<open>Math.floor(i * ratio)\<close> to \<^verbatim>\<open>Math.floor((i + 1) * ratio)\<close>, bounds computed
  in binary64 arithmetic, or 0 when the window holds no index of the list; the first
  window starts at 0 and each window starts where the one before ends; every value lies
  in \<open>[0, 1]\<close> and is at most the largest peak.
\<close>

theorem C8_downsample_windows:
  assumes "\<forall>x \<in> set p. 0 \<le> x \<and> x \<le> 1" and "1 \<le> t"
  shows "(length p \<le> t \<longrightarrow> downsample p t = p) \<and>
         (t < length p \<longrightarrow>
            length (downsample p t) = t \<and>
            (\<forall>i < t. downsample p t ! i =
               Max (insert 0 ((\<lambda>j. p ! j) `
                 {j. windowStart (length p) t i \<le> j \<and> j < windowEnd (length p) t i \<and>
                     j < length p}))) \<and>
            windowStart (length p) t 0 = 0 \<and>
            (\<forall>i. windowEnd (length p) t i = windowStart (length p) t (Suc i)) \<and>
            (\<forall>y \<in> set (downsample p t). 0 \<le> y \<and> y \<le> 1 \<and> y \<le> Max (set p)))"
proof (intro conjI impI)
  show "length p \<le> t \<Longrightarrow> downsample p t = p"
    by (rule downsample_short)
next
  assume "t < length p"
  then show "length (downsample p t) = t"
    by (rule downsample_long)
next
  assume long: "t < length p"
  show "\<forall>i < t. downsample p t ! i =
               Max (insert 0 ((\<lambda>j. p ! j) `
                 {j. windowStart (length p) t i \<le> j \<and> j < windowEnd (length p) t i \<and>
                     j < length p}))"
    using downsample_long(2) [OF long] by (simp add: windowMax_Max)
next
  show "windowStart (length p) t 0 = 0"
    by (rule windowStart_0)
next
  show "\<forall>i. windowEnd (length p) t i = windowStart (length p) t (Suc i)"
    by (simp add: windowEnd_next)
next
  assume long: "t < length p"
  then have ne: "p \<noteq> []" by auto
  show "\<forall>y \<in> set (downsample p t). 0 \<le> y \<and> y \<le> 1 \<and> y \<le> Max (set p)"
  proof
    fix y
    assume "y \<in> set (downsample p t)"
    then obtain i where "i < length (downsample p t)" "y = downsample p t ! i"
      by (auto simp: in_set_conv_nth)
    with long have "y = windowMax p (windowStart (length p) t i) (windowEnd (length p) t i)"
      by (simp add: downsample_long)
    with windowMax_bounds [OF assms(1) ne] show "0 \<le> y \<and> y \<le> 1 \<and> y \<le> Max (set p)"
      by simp
  qed
qed

theorem C8_downsample_windows_witness:
  "downsample [1 / 2, 1, 1 / 4, 0, 3 / 4] 2 = [1, 3 / 4] \<and>
   length (downsample [1 / 2, 1, 1 / 4, 0, 3 / 4] 2) = 2 \<and>
   downsample [1 / 2, 1] 2 = [1 / 2, 1]"
proof -
  let ?p = "[1 / 2, 1, 1 / 4, 0, 3 / 4] :: real list"
  have range: "\<forall>x \<in> set ?p. 0 \<le> x \<and> x \<le> 1" by simp
  have range2: "\<forall>x \<in> set [1 / 2, 1 :: real]. 0 \<le> x \<and> x \<le> 1" by simp
  have t: "(1::nat) \<le> 2" by simp
  from C8_downsample_windows [OF range t]
  have len: "length (downsample ?p 2) = 2" by simp
  from C8_downsample_windows [OF range2 t]
  have short: "downsample [1 / 2, 1] 2 = [1 / 2, 1 :: real]" by simp
  have r: "fdiv 5 2 = 5 / 2"
    by (simp add: float_eval)
  have w: "windowStart 5 2 0 = 0" "windowEnd 5 2 0 = 2"
    "windowStart 5 2 (Suc 0) = 2" "windowEnd 5 2 (Suc 0) = 5"
    by (simp_all add: windowStart_def windowEnd_def r) (simp_all add: float_eval)
  have lenp: "length ?p = 5" by simp
  have ups: "[0..<2::nat] = [0, Suc 0]"
    by (simp add: upt_rec numeral_2_eq_2)
  have "downsample ?p 2 =
      map (\<lambda>i. windowMax ?p (windowStart 5 2 i) (windowEnd 5 2 i)) [0, Suc 0]"
    unfolding downsample_def lenp ups by simp
  also have "\<dots> = [windowMax ?p 0 2, windowMax ?p 2 5]"
    by (simp only: list.map w)
  also have "\<dots> = [1, 3 / 4]"
    by (simp add: windowMax_def upt_rec)
  finally have val: "downsample ?p 2 = [1, 3 / 4]" .
  from val len short show ?thesis by blast
qed

subsection \<open>Waveform request queue\<close>

declare processQueue.simps [simp del]

lemma processQueue_inv: "queueInv s \<Longrightarrow> queueInv (processQueue s)"
proof (induction s rule: processQueue.induct)
  case (1 s)
  show ?case
  proof (cases "activeReqs s < MAX_CONCURRENT \<and> queue s \<noteq> []")
    case False
    with "1.prems" show ?thesis by (subst processQueue.simps) auto
  next
    case True
    let ?item = "last (queue s)"
    let ?s1 = "s\<lparr>queue := butlast (queue s)\<rparr>"
    from True have q: "queue s = butlast (queue s) @ [?item]" by simp
    have mem: "?item \<in> set (queue s)" using True by simp
    have sub: "set (butlast (queue s)) \<subseteq> set (queue s)" by (metis in_set_butlastD subsetI)
    from "1.prems" have dq: "distinct (queue s)" by (simp add: queueInv_def)
    from dq have db: "distinct (butlast (queue s))" by (rule distinct_butlast)
    from dq q have notin: "?item \<notin> set (butlast (queue s))"
      by (metis distinct_append disjoint_iff list.set_intros(1))
    from "1.prems" sub db have inv1: "queueInv ?s1"
      by (auto simp: queueInv_def list_all_iff)
    show ?thesis
    proof (cases "?item \<in> cancelledItems ?s1")
      case c: True
      with True "1.IH" [OF True refl refl c inv1] show ?thesis
        by (subst processQueue.simps) (simp add: Let_def)
    next
      case c: False
      from "1.prems" mem have fresh: "?item \<notin> set (invoked s)" "?item \<notin> running s"
        by (auto simp: queueInv_def)
      from "1.prems" True have zero: "activeReqs s = 0" "running s = {}"
        by (auto simp: queueInv_def MAX_CONCURRENT_def)
      from "1.prems" mem have lt: "?item < nextItem s"
        by (auto simp: queueInv_def list_all_iff)
      have res: "processQueue s = ?s1\<lparr>activeReqs := activeReqs ?s1 + 1,
                   invoked := invoked ?s1 @ [?item],
                   running := insert ?item (running ?s1)\<rparr>"
        using True c by (subst processQueue.simps) (simp add: Let_def)
      from "1.prems" sub fresh zero lt db notin show ?thesis
        unfolding res
        by (auto simp: queueInv_def list_all_iff MAX_CONCURRENT_def)
    qed
  qed
qed

lemma processQueue_never: "neverInvoked i s \<Longrightarrow> neverInvoked i (processQueue s)"
proof (induction s rule: processQueue.induct)
  case (1 s)
  show ?case
  proof (cases "activeReqs s < MAX_CONCURRENT \<and> queue s \<noteq> []")
    case False
    with "1.prems" show ?thesis by (subst processQueue.simps) auto
  next
    case True
    let ?item = "last (queue s)"
    let ?s1 = "s\<lparr>queue := butlast (queue s)\<rparr>"
    from "1.prems" have n1: "neverInvoked i ?s1"
      by (simp add: neverInvoked_def)
    show ?thesis
    proof (cases "?item \<in> cancelledItems ?s1")
      case c: True
      with True "1.IH" [OF True refl refl c n1] show ?thesis
        by (subst processQueue.simps) (simp add: Let_def)
    next
      case c: False
      with "1.prems" have "?item \<noteq> i"
        by (auto simp: neverInvoked_def)
      with "1.prems" True c show ?thesis
        by (subst processQueue.simps) (simp add: Let_def neverInvoked_def)
    qed
  qed
qed

lemma step_inv: "queueInv s \<Longrightarrow> queueInv (step s e)"
proof (cases e)
  case Enqueue
  assume inv: "queueInv s"
  let ?s1 = "s\<lparr>queue := queue s @ [nextItem s], nextItem := Suc (nextItem s)\<rparr>"
  from inv have "queueInv ?s1"
    by (fastforce simp: queueInv_def list_all_iff)
  then show ?thesis
    using Enqueue by (simp add: enqueue_def Let_def processQueue_inv)
next
  case (Cancel i)
  assume "queueInv s"
  with Cancel show ?thesis by (simp add: cancel_def queueInv_def)
next
  case (Settle i)
  assume inv: "queueInv s"
  show ?thesis
  proof (cases "i \<in> running s")
    case True
    with inv have "card (running s - {i}) = card (running s) - 1" by (simp add: queueInv_def)
    with inv True Settle show ?thesis
      by (auto simp: settle_def queueInv_def)
  next
    case False
    with inv Settle show ?thesis by (simp add: settle_def)
  qed
next
  case Timer
  assume inv: "queueInv s"
  then have "queueInv (s\<lparr>timers := timers s - 1\<rparr>)" by (simp add: queueInv_def)
  with inv Timer show ?thesis by (simp add: timerFires_def processQueue_inv)
qed

lemma step_never: "neverInvoked i s \<Longrightarrow> neverInvoked i (step s e)"
proof (cases e)
  case Enqueue
  assume n: "neverInvoked i s"
  let ?s1 = "s\<lparr>queue := queue s @ [nextItem s], nextItem := Suc (nextItem s)\<rparr>"
  from n have "neverInvoked i ?s1" by (simp add: neverInvoked_def)
  then show ?thesis
    using Enqueue by (simp add: enqueue_def Let_def processQueue_never)
next
  case (Cancel j)
  assume "neverInvoked i s"
  with Cancel show ?thesis by (simp add: cancel_def neverInvoked_def)
next
  case (Settle j)
  assume "neverInvoked i s"
  with Settle show ?thesis by (simp add: settle_def neverInvoked_def)
next
  case Timer
  assume n: "neverInvoked i s"
  then have "neverInvoked i (s\<lparr>timers := timers s - 1\<rparr>)" by (simp add: neverInvoked_def)
  with n Timer show ?thesis by (simp add: timerFires_def processQueue_never)
qed

lemma foldl_inv: "queueInv s \<Longrightarrow> queueInv (foldl step s es)"
  by (induction es arbitrary: s) (simp_all add: step_inv)

lemma foldl_never: "neverInvoked i s \<Longrightarrow> neverInvoked i (foldl step s es)"
  by (induction es arbitrary: s) (simp_all add: step_never)

lemma run_inv: "queueInv (run es)"
  unfolding run_def
  by (rule foldl_inv) (simp add: queueInv_def initialQueue_def)

lemma cancel_in_queue_never:
  assumes "i \<in> set (queue (run es1))"
  shows "i \<notin> set (invoked (run (es1 @ Cancel i # es2)))"
proof -
  from run_inv [of es1] assms have "i \<notin> set (invoked (run es1))" "i < nextItem (run es1)"
    by (auto simp: queueInv_def list_all_iff)
  then have "neverInvoked i (cancel i (run es1))"
    by (simp add: neverInvoked_def cancel_def)
  then have "neverInvoked i (foldl step (cancel i (run es1)) es2)"
    by (rule foldl_never)
  then show ?thesis
    by (simp add: run_def neverInvoked_def)
qed

text \<open>
  C2.  In every run of the limiter from its initial state, an item whose cancel function
  is called while the item is still in the queue (enqueued and not yet popped) never has
  its function called, whatever happens before or after; and at every moment at most
  one function that the limiter started is still running.
\<close>

theorem C2_cancelled_never_decoded:
  "(i \<in> set (queue (run es1)) \<longrightarrow> i \<notin> set (invoked (run (es1 @ Cancel i # es2)))) \<and>
   card (running (run es)) \<le> 1 \<and>
   activeReqs (run es) = card (running (run es))"
proof (intro conjI impI)
  assume "i \<in> set (queue (run es1))"
  then show "i \<notin> set (invoked (run (es1 @ Cancel i # es2)))"
    by (rule cancel_in_queue_never)
next
  from run_inv [of es] show "card (running (run es)) \<le> 1"
    by (simp add: queueInv_def MAX_CONCURRENT_def)
next
  from run_inv [of es] show "activeReqs (run es) = card (running (run es))"
    by (simp add: queueInv_def)
qed

theorem C2_cancelled_never_decoded_witness:
  "queue (run [Enqueue, Enqueue]) = [1] \<and>
   invoked (run [Enqueue, Enqueue]) = [0] \<and>
   1 \<notin> set (invoked (run ([Enqueue, Enqueue] @ Cancel 1 # [Settle 0, Timer, Enqueue]))) \<and>
   invoked (run ([Enqueue, Enqueue] @ Cancel 1 # [Settle 0, Timer, Enqueue])) = [0, 2]"
proof -
  have q: "queue (run [Enqueue, Enqueue]) = [1]" by code_simp
  have v: "invoked (run [Enqueue, Enqueue]) = [0]" by code_simp
  have w: "invoked (run ([Enqueue, Enqueue] @ Cancel 1 # [Settle 0, Timer, Enqueue])) = [0, 2]"
    by code_simp
  from q have "1 \<in> set (queue (run [Enqueue, Enqueue]))" by simp
  with C2_cancelled_never_decoded [of 1 "[Enqueue, Enqueue]" "[Settle 0, Timer, Enqueue]" "[]"]
  have "1 \<notin> set (invoked (run ([Enqueue, Enqueue] @ Cancel 1 # [Settle 0, Timer, Enqueue])))"
    by blast
  with q v w show ?thesis by blast
qed

subsection \<open>Pagination\<close>

lemma useMemo_deps: "fst (fst (useMemo cell deps create n)) = deps"
  by (auto simp: useMemo_def split: option.splits)

lemma useMemo_mono: "n \<le> snd (useMemo cell deps create n)"
  by (auto simp: useMemo_def split: option.splits)

lemma cell_eq: "fst c = d \<Longrightarrow> c = (d, snd c)"
  by auto

lemma innerBelow_mono: "innerBelow n r \<Longrightarrow> n \<le> m \<Longrightarrow> innerBelow m r"
  by (auto simp: innerBelow_def split: ref.splits)





lemma setCell_mono: "setCell st n cell arr S \<Longrightarrow> n \<le> m \<Longrightarrow> setCell st m cell arr S"
  by (auto simp: setCell_def innerBelow_mono)




















end
